theory Spec2Isabelle
  imports Main "HOL-Library.Word"
begin

unbundle bit_operations_syntax

section \<open>Data model\<close>

text \<open>
  The driver in \<^verbatim>\<open>sensor.c\<close> works on three pieces of data: the five-byte frame
  \<^verbatim>\<open>uint8_t data[5]\<close>, the application structure \<^verbatim>\<open>DHT11App\<close> of \<^verbatim>\<open>app.h\<close>
  and the hardware (the data pin and the DWT cycle counter).

  The fields \<^verbatim>\<open>temperature\<close> and \<^verbatim>\<open>humidity\<close> are C floats, but the driver only ever
  stores converted bytes in them (\<^verbatim>\<open>(float)data[0]\<close>, \<^verbatim>\<open>-((float)(data[2] & 0x7F))\<close>),
  that is, integers between -127 and 255, which a float holds exactly, and compares
  them with the integer constants 100, 60 and -40. They are modelled as \<open>int\<close>.
\<close>

type_synonym u8 = "8 word"
type_synonym u32 = "32 word"

record DHT11App =
  temperature :: int
  humidity :: int
  sensor_ok :: bool
  debug_log :: string

text \<open>
  Every \<^verbatim>\<open>return false\<close> of the two read functions is one constructor; the names follow
  the comments and the error messages at the return sites.
\<close>

datatype failure =
    NoResponse
  | InvalidResponseTiming
  | ResponseTooLong
  | BitTimeout nat
  | ChecksumMismatch
  | OutOfRange

text \<open>The C return value of an exit: \<^verbatim>\<open>true\<close> at the end, \<^verbatim>\<open>false\<close> at every failure.\<close>

definition returned :: "failure + unit \<Rightarrow> bool" where
  "returned e = (case e of Inl _ \<Rightarrow> False | Inr _ \<Rightarrow> True)"

section \<open>Hardware\<close>

text \<open>
  The pin and the cycle counter are inputs. \<open>pin_level h k\<close> is the level that the
  \<open>k\<close>-th call of \<^verbatim>\<open>furi_hal_gpio_read(DHT11_PIN)\<close> returns, \<open>cyccnt h k\<close> the value of
  the \<open>k\<close>-th read of \<^verbatim>\<open>DWT->CYCCNT\<close>; the two counters say how many reads were made.
  Writes to the pin, delays, the LED notifications, the critical section and the
  enabling of the cycle counter in \<^verbatim>\<open>DWT->CTRL\<close> compute no value the functions use
  and are left out.
\<close>

record hw =
  pin_level :: "nat \<Rightarrow> bool"
  pin_reads :: nat
  cyccnt :: "nat \<Rightarrow> u32"
  cyc_reads :: nat

definition furi_hal_gpio_read :: "hw \<Rightarrow> bool \<times> hw" where
  "furi_hal_gpio_read h = (pin_level h (pin_reads h), h\<lparr>pin_reads := Suc (pin_reads h)\<rparr>)"

definition read_CYCCNT :: "hw \<Rightarrow> u32 \<times> hw" where
  "read_CYCCNT h = (cyccnt h (cyc_reads h), h\<lparr>cyc_reads := Suc (cyc_reads h)\<rparr>)"

text \<open>
  The polling loop used for the three handshake phases and for the start of every bit:
  \<^verbatim>\<open>while(furi_hal_gpio_read(DHT11_PIN) && timeout < 200) { furi_delay_us(1); timeout++; }\<close>
  with \<open>level = True\<close>, and the same with \<^verbatim>\<open>!furi_hal_gpio_read(DHT11_PIN)\<close> for
  \<open>level = False\<close>. The pin is read at every test of the condition, before the counter is
  compared. \<^verbatim>\<open>timeout\<close> is a \<^verbatim>\<open>uint32_t\<close> that never exceeds 200, so it is a \<open>nat\<close>.
\<close>

function wait_while :: "bool \<Rightarrow> nat \<Rightarrow> hw \<Rightarrow> nat \<times> hw" where
  "wait_while level timeout h =
     (case furi_hal_gpio_read h of (v, h') \<Rightarrow>
        if v = level \<and> timeout < 200 then wait_while level (Suc timeout) h'
        else (timeout, h'))"
  by pat_completeness auto
termination
  by (relation "measure (\<lambda>(level, timeout, h). 200 - timeout)") auto

declare wait_while.simps [simp del]

text \<open>
  The measurement of the high period (lines 104 to 112 and 273 to 281):
  \<^verbatim>\<open>
  uint32_t start_cycles = DWT->CYCCNT;
  while(furi_hal_gpio_read(DHT11_PIN)) {
      uint32_t elapsed_cycles = DWT->CYCCNT - start_cycles;
      uint32_t elapsed_us = elapsed_cycles / 64;
      if(elapsed_us > 200) break;
  }
  uint32_t end_cycles = DWT->CYCCNT;
  uint32_t pulse_duration_us = (end_cycles - start_cycles) / 64;
  \<close>
  Nothing bounds the number of iterations when the pin stays high and the counter
  does not move, so the loop is a partial function: \<open>None\<close> is a loop that never ends.
\<close>

partial_function (option) measure_loop :: "u32 \<Rightarrow> hw \<Rightarrow> hw option" where
  "measure_loop start_cycles h =
     (case furi_hal_gpio_read h of (v, h1) \<Rightarrow>
        if v then
          (case read_CYCCNT h1 of (now, h2) \<Rightarrow>
             if 200 < (now - start_cycles) div 64 then Some h2
             else measure_loop start_cycles h2)
        else Some h1)"

declare measure_loop.simps [code]

definition measure_pulse :: "hw \<Rightarrow> (u32 \<times> hw) option" where
  "measure_pulse h =
     (case read_CYCCNT h of (start_cycles, h1) \<Rightarrow>
        (case measure_loop start_cycles h1 of
           None \<Rightarrow> None
         | Some h2 \<Rightarrow>
             (case read_CYCCNT h2 of (end_cycles, h3) \<Rightarrow>
                Some ((end_cycles - start_cycles) div 64, h3))))"

section \<open>Bit classification and packing\<close>

text \<open>
  \<^verbatim>\<open>if(pulse_duration_us > 40)\<close> in the plain read,
  \<^verbatim>\<open>bool bit_value = pulse_duration_us > 40;\<close> in the debug read.
\<close>

definition bit_value :: "u32 \<Rightarrow> bool" where
  "bit_value pulse_duration_us = (40 < pulse_duration_us)"

text \<open>
  \<^verbatim>\<open>uint8_t byte_idx = i / 8; uint8_t bit_idx = 7 - (i % 8); data[byte_idx] |= (1 << bit_idx);\<close>
  The index \<open>i\<close> runs from 0 to 39, so \<open>byte_idx\<close> is below 5 and \<open>bit_idx\<close> below 8.
\<close>

definition set_data_bit :: "nat \<Rightarrow> u8 list \<Rightarrow> u8 list" where
  "set_data_bit i data =
     (let byte_idx = i div 8; bit_idx = 7 - i mod 8
      in data[byte_idx := (data ! byte_idx) OR push_bit bit_idx 1])"

definition store_bit :: "nat \<Rightarrow> u32 \<Rightarrow> u8 list \<Rightarrow> u8 list" where
  "store_bit i pulse_duration_us data =
     (if bit_value pulse_duration_us then set_data_bit i data else data)"

section \<open>The plain read\<close>

text \<open>Lines 49 to 82: the three handshake waits, each with its own \<^verbatim>\<open>return false\<close>.\<close>

definition handshake :: "hw \<Rightarrow> (failure + unit) \<times> hw" where
  "handshake h =
     (case wait_while True 0 h of (t1, h1) \<Rightarrow>
        if 200 \<le> t1 then (Inl NoResponse, h1)
        else (case wait_while False 0 h1 of (t2, h2) \<Rightarrow>
          if 200 \<le> t2 then (Inl InvalidResponseTiming, h2)
          else (case wait_while True 0 h2 of (t3, h3) \<Rightarrow>
            if 200 \<le> t3 then (Inl ResponseTooLong, h3)
            else (Inr (), h3))))"

text \<open>Lines 85 to 122: the loop \<^verbatim>\<open>for(int i = 0; i < 40; i++)\<close>, entered with \<open>i = 0\<close>.\<close>

function read_bits :: "nat \<Rightarrow> u8 list \<Rightarrow> hw \<Rightarrow> ((failure + u8 list) \<times> hw) option" where
  "read_bits i data h =
     (if i < 40 then
        (case wait_while False 0 h of (timeout, h1) \<Rightarrow>
           if 200 \<le> timeout then Some (Inl (BitTimeout i), h1)
           else (case measure_pulse h1 of
                   None \<Rightarrow> None
                 | Some (pulse_duration_us, h2) \<Rightarrow>
                     read_bits (Suc i) (store_bit i pulse_duration_us data) h2))
      else Some (Inr data, h))"
  by pat_completeness auto
termination
  by (relation "measure (\<lambda>(i, data, h). 40 - i)") auto

declare read_bits.simps [simp del]

text \<open>
  Lines 126 to 153: checksum, conversion, sign, range check. The sum of four
  \<^verbatim>\<open>uint8_t\<close> is stored in a \<^verbatim>\<open>uint8_t\<close>, so it is the sum modulo 256.
\<close>

definition out_of_range :: "DHT11App \<Rightarrow> bool" where
  "out_of_range app = (100 < humidity app \<or> 60 < temperature app \<or> temperature app < - 40)"

definition validate :: "u8 list \<Rightarrow> DHT11App \<Rightarrow> (failure + unit) \<times> DHT11App" where
  "validate data app =
     (let checksum = data ! 0 + data ! 1 + data ! 2 + data ! 3 in
      if checksum \<noteq> data ! 4 then (Inl ChecksumMismatch, app)
      else
        let app1 = app\<lparr>humidity := uint (data ! 0)\<rparr>;
            app2 = app1\<lparr>temperature := uint (data ! 2)\<rparr>;
            app3 = (if (data ! 2) AND 0x80 \<noteq> 0
                    then app2\<lparr>temperature := - uint ((data ! 2) AND 0x7F)\<rparr> else app2)
        in if out_of_range app3 then (Inl OutOfRange, app3) else (Inr (), app3))"

text \<open>
  Lines 49 to 122 together: the handshake, then the 40 bits into the frame that starts
  as \<^verbatim>\<open>uint8_t data[5] = {0}\<close>.
\<close>

definition receive :: "hw \<Rightarrow> ((failure + u8 list) \<times> hw) option" where
  "receive h =
     (case handshake h of
        (Inl e, h1) \<Rightarrow> Some (Inl e, h1)
      | (Inr _, h1) \<Rightarrow> read_bits 0 [0, 0, 0, 0, 0] h1)"

text \<open>
  \<^verbatim>\<open>dht11_sensor_read\<close>, with the exit it took; \<open>None\<close> when a measurement loop never
  ends.
\<close>

definition dht11_sensor_read_exit ::
  "DHT11App \<Rightarrow> hw \<Rightarrow> ((failure + unit) \<times> DHT11App \<times> hw) option" where
  "dht11_sensor_read_exit app h =
     (case receive h of
        None \<Rightarrow> None
      | Some (Inl e, h2) \<Rightarrow> Some (Inl e, app, h2)
      | Some (Inr data, h2) \<Rightarrow>
          (case validate data app of (r, app') \<Rightarrow> Some (r, app', h2)))"

definition dht11_sensor_read :: "DHT11App \<Rightarrow> hw \<Rightarrow> (bool \<times> DHT11App \<times> hw) option" where
  "dht11_sensor_read app h =
     map_option (\<lambda>(e, app', h'). (returned e, app', h')) (dht11_sensor_read_exit app h)"

section \<open>Text formatting\<close>

text \<open>
  The formats the debug read uses: \<^verbatim>\<open>%d\<close> and \<^verbatim>\<open>%lu\<close> on values that are never
  negative, \<^verbatim>\<open>%02X\<close> on a byte, and \<^verbatim>\<open>%.1f\<close> on a float that holds an integer.
\<close>

definition digit :: "nat \<Rightarrow> char" where
  "digit k = ''0123456789ABCDEF'' ! k"

fun dec :: "nat \<Rightarrow> string" where
  "dec n = (if n < 10 then [digit n] else dec (n div 10) @ [digit (n mod 10)])"

declare dec.simps [simp del]

definition hex2 :: "u8 \<Rightarrow> string" where
  "hex2 b = [digit (unat b div 16), digit (unat b mod 16)]"

definition fixed1 :: "int \<Rightarrow> string" where
  "fixed1 x = (if x < 0 then ''-'' else []) @ dec (nat \<bar>x\<bar>) @ ''.0''"

text \<open>
  \<^verbatim>\<open>char temp_msg[128]; snprintf(temp_msg, sizeof(temp_msg), ...)\<close> keeps at most 127
  characters of the formatted text.
\<close>

definition temp_msg :: "string \<Rightarrow> string" where
  "temp_msg s = take 127 s"

section \<open>The debug log\<close>

text \<open>
  \<^verbatim>\<open>snprintf(buf + pos, sz, ...)\<close> on a buffer that holds the C string \<open>buf\<close>: nothing
  is written when the size \<open>sz\<close> is 0, otherwise at most \<open>sz - 1\<close> characters and the
  terminator. A write that starts behind the terminator leaves the string as it is.
  The buffer has 2048 bytes; a write at an offset beyond them has no defined behaviour
  in C, and the model says nothing faithful about it.
\<close>

definition snprintf_at :: "string \<Rightarrow> u32 \<Rightarrow> u32 \<Rightarrow> string \<Rightarrow> string" where
  "snprintf_at buf pos sz s =
     (if sz = 0 then buf
      else if unat pos \<le> length buf then take (unat pos) buf @ take (unat sz - 1) s
      else buf)"

text \<open>
  The state of a debug read: the application structure (with \<^verbatim>\<open>debug_log\<close>, a
  \<^verbatim>\<open>char[2048]\<close>), the local \<^verbatim>\<open>size_t log_pos\<close> (32 bits on the Cortex-M4 target) and,
  for the statements about the log, the record \<open>calls\<close> of every formatter call on
  \<^verbatim>\<open>debug_log\<close> in order: the offset it was given and the text it formatted.
\<close>

record dstate =
  dapp :: DHT11App
  log_pos :: u32
  calls :: "(u32 \<times> string) list"

text \<open>
  \<^verbatim>\<open>log_pos += snprintf(app->debug_log + log_pos, sizeof(app->debug_log) - log_pos, ...)\<close>:
  \<^verbatim>\<open>snprintf\<close> returns the length of the whole formatted text, written or not.
\<close>

definition log_append :: "string \<Rightarrow> dstate \<Rightarrow> dstate" where
  "log_append s d =
     d\<lparr>dapp := (dapp d)\<lparr>debug_log :=
                 snprintf_at (debug_log (dapp d)) (log_pos d) (2048 - log_pos d) s\<rparr>,
       log_pos := log_pos d + of_nat (length s),
       calls := calls d @ [(log_pos d, s)]\<rparr>"

section \<open>The debug read\<close>

text \<open>Lines 162 to 196: the log is cleared, then the steps before the handshake.\<close>

definition debug_start :: "DHT11App \<Rightarrow> hw \<Rightarrow> dstate \<times> hw" where
  "debug_start app h =
     (let d0 = \<lparr>dapp = app\<lparr>debug_log := []\<rparr>, log_pos = 0, calls = []\<rparr>;
          d1 = log_append ''=== DHT11 Debug Log ===\<newline>'' d0;
          d2 = log_append ''Pin: C0 (GPIO 16)\<newline>\<newline>'' d1;
          d3 = log_append ''1. LED: Blue flash started\<newline>'' d2
      in case furi_hal_gpio_read h of (v, h1) \<Rightarrow>
        let d4 = log_append (temp_msg (''2. Initial pin state: ''
                   @ (if v then ''HIGH'' else ''LOW'') @ ''\<newline>'')) d3;
            d5 = log_append ''3. Start signal: Pin LOW for 20ms\<newline>'' d4;
            d6 = log_append ''4. Critical section: Interrupts disabled\<newline>'' d5;
            d7 = log_append ''5. Release signal: Pin HIGH for 30us\<newline>'' d6;
            d8 = log_append ''6. Input mode: Pull-up enabled\<newline>'' d7
        in (d8, h1))"

text \<open>Lines 200 to 248: the handshake, every wait logged before its timeout test.\<close>

definition debug_handshake :: "dstate \<Rightarrow> hw \<Rightarrow> (failure + unit) \<times> dstate \<times> hw" where
  "debug_handshake d h =
     (case wait_while True 0 h of (t1, h1) \<Rightarrow>
        let d1 = log_append (temp_msg (''7. Wait for LOW: '' @ dec t1 @ ''ms timeout=''
                   @ (if 200 \<le> t1 then ''1'' else ''0'') @ ''\<newline>'')) d
        in if 200 \<le> t1 then
             (Inl NoResponse,
              log_append ''Check: VCC->3.3V, GND->GND, DATA->C0\<newline>''
                (log_append ''ERROR: No response from DHT11\<newline>'' d1), h1)
        else (case wait_while False 0 h1 of (t2, h2) \<Rightarrow>
          let d2 = log_append (temp_msg (''8. Response LOW: '' @ dec t2 @ ''ms\<newline>'')) d1
          in if 200 \<le> t2 then
               (Inl InvalidResponseTiming,
                log_append ''ERROR: Invalid response timing\<newline>'' d2, h2)
          else (case wait_while True 0 h2 of (t3, h3) \<Rightarrow>
            let d3 = log_append (temp_msg (''9. Response HIGH: '' @ dec t3 @ ''ms\<newline>'')) d2
            in if 200 \<le> t3 then
                 (Inl ResponseTooLong, log_append ''ERROR: Response too long\<newline>'' d3, h3)
            else (Inr (), log_append ''10. Data transmission started\<newline>'' d3, h3))))"

text \<open>
  Lines 251 to 303: the loop over the 40 bits with the counter \<^verbatim>\<open>bits_read\<close> and the
  log of the bit: every bit below 16, then the bits with \<^verbatim>\<open>(i % 8) == 7\<close>.
\<close>

definition bit_entry :: "nat \<Rightarrow> u32 \<Rightarrow> string" where
  "bit_entry i pulse_duration_us =
     (if i < 16 then
        temp_msg (''Bit '' @ dec i @ '': '' @ dec (unat pulse_duration_us) @ ''ms = ''
          @ (if bit_value pulse_duration_us then ''1'' else ''0'') @ '' (th:40)\<newline>'')
      else
        temp_msg (''Bit '' @ dec i @ '': '' @ dec (unat pulse_duration_us) @ ''ms = ''
          @ (if bit_value pulse_duration_us then ''1'' else ''0'') @ ''\<newline>''))"

definition log_bit :: "nat \<Rightarrow> u32 \<Rightarrow> dstate \<Rightarrow> dstate" where
  "log_bit i pulse_duration_us d =
     (if i < 16 then log_append (bit_entry i pulse_duration_us) d
      else if i mod 8 = 7 then log_append (bit_entry i pulse_duration_us) d
      else d)"

function debug_read_bits ::
  "nat \<Rightarrow> nat \<Rightarrow> u8 list \<Rightarrow> dstate \<Rightarrow> hw
     \<Rightarrow> ((failure + nat \<times> u8 list) \<times> dstate \<times> hw) option" where
  "debug_read_bits i bits_read data d h =
     (if i < 40 then
        (case wait_while False 0 h of (timeout, h1) \<Rightarrow>
           if 200 \<le> timeout then
             Some (Inl (BitTimeout i),
                   log_append (temp_msg (''ERROR: Bit '' @ dec i @ '' start timeout\<newline>'')) d,
                   h1)
           else (case measure_pulse h1 of
                   None \<Rightarrow> None
                 | Some (pulse_duration_us, h2) \<Rightarrow>
                     debug_read_bits (Suc i) (Suc bits_read)
                       (store_bit i pulse_duration_us data)
                       (log_bit i pulse_duration_us d) h2))
      else Some (Inr (bits_read, data), d, h))"
  by pat_completeness auto
termination
  by (relation "measure (\<lambda>(i, bits_read, data, d, h). 40 - i)") auto

declare debug_read_bits.simps [simp del]

text \<open>
  Lines 305 to 352: the closing steps, the raw frame, the checksum, the conversion
  (here without a test of the sign bit) and the range check. The degree sign of the
  temperature line is the two bytes C2 B0 of the UTF-8 source text.
\<close>

definition debug_validate :: "nat \<Rightarrow> u8 list \<Rightarrow> dstate \<Rightarrow> (failure + unit) \<times> dstate" where
  "debug_validate bits_read data d =
     (let d1 = log_append ''11. Critical section: Interrupts enabled\<newline>'' d;
          d2 = log_append (temp_msg (''12. Bits read: '' @ dec bits_read @ ''/40\<newline>'')) d1;
          d3 = log_append ''Timing Analysis:\<newline>'' d2;
          d4 = log_append ''- Using DWT cycle counter (64MHz = 1us)\<newline>'' d3;
          d5 = log_append ''- Current threshold: 40us\<newline>'' d4;
          d6 = log_append ''- Expected: 0=26-28us, 1=70us\<newline>'' d5;
          d7 = log_append ''- High precision cycle counting\<newline>'' d6;
          d8 = log_append (temp_msg (''13. Raw data: '' @ hex2 (data ! 0) @ '' ''
                 @ hex2 (data ! 1) @ '' '' @ hex2 (data ! 2) @ '' '' @ hex2 (data ! 3)
                 @ '' '' @ hex2 (data ! 4) @ ''\<newline>'')) d7;
          checksum = data ! 0 + data ! 1 + data ! 2 + data ! 3;
          d9 = log_append (temp_msg (''14. Checksum calc: '' @ hex2 checksum
                 @ '', received: '' @ hex2 (data ! 4) @ ''\<newline>'')) d8
      in if checksum \<noteq> data ! 4 then
           (Inl ChecksumMismatch, log_append ''ERROR: Checksum mismatch\<newline>'' d9)
         else
           let app1 = (dapp d9)\<lparr>humidity := uint (data ! 0)\<rparr>;
               app2 = app1\<lparr>temperature := uint (data ! 2)\<rparr>;
               d10 = d9\<lparr>dapp := app2\<rparr>;
               d11 = log_append (temp_msg (''15. Humidity: '' @ fixed1 (humidity app2)
                       @ ''%\<newline>'')) d10;
               d12 = log_append (temp_msg (''16. Temperature: '' @ fixed1 (temperature app2)
                       @ [CHR 0xC2, CHR 0xB0] @ ''C\<newline>'')) d11
           in if out_of_range (dapp d12) then
                (Inl OutOfRange, log_append ''ERROR: Values out of range\<newline>'' d12)
              else (Inr (), log_append ''17. SUCCESS: Read completed\<newline>'' d12))"

text \<open>Lines 162 to 303 together: the start of the log, the handshake and the 40 bits.\<close>

definition debug_receive ::
  "DHT11App \<Rightarrow> hw \<Rightarrow> ((failure + nat \<times> u8 list) \<times> dstate \<times> hw) option" where
  "debug_receive app h =
     (case debug_start app h of (d0, h0) \<Rightarrow>
        (case debug_handshake d0 h0 of
           (Inl e, d1, h1) \<Rightarrow> Some (Inl e, d1, h1)
         | (Inr _, d1, h1) \<Rightarrow> debug_read_bits 0 0 [0, 0, 0, 0, 0] d1 h1))"

text \<open>
  \<^verbatim>\<open>dht11_sensor_debug_read\<close>, with the exit it took and the state of the log; \<open>None\<close>
  when a measurement loop never ends.
\<close>

definition dht11_sensor_debug_read_exit ::
  "DHT11App \<Rightarrow> hw \<Rightarrow> ((failure + unit) \<times> dstate \<times> hw) option" where
  "dht11_sensor_debug_read_exit app h =
     (case debug_receive app h of
        None \<Rightarrow> None
      | Some (Inl e, d2, h2) \<Rightarrow> Some (Inl e, d2, h2)
      | Some (Inr (bits_read, data), d2, h2) \<Rightarrow>
          (case debug_validate bits_read data d2 of (r, d3) \<Rightarrow> Some (r, d3, h2)))"

definition dht11_sensor_debug_read ::
  "DHT11App \<Rightarrow> hw \<Rightarrow> (bool \<times> DHT11App \<times> hw) option" where
  "dht11_sensor_debug_read app h =
     map_option (\<lambda>(e, d, h'). (returned e, dapp d, h')) (dht11_sensor_debug_read_exit app h)"

section \<open>Vocabulary of the statements\<close>

text \<open>Bit \<open>i\<close> of a frame, counted in the order of arrival, the high bit of a byte first.\<close>

definition frame_bit :: "u8 list \<Rightarrow> nat \<Rightarrow> bool" where
  "frame_bit data i = bit (data ! (i div 8)) (7 - i mod 8)"

text \<open>
  The pulse durations of the next \<open>n\<close> bits as the body of the data loop measures
  them: the wait for the start of the bit, then the measurement. \<open>None\<close> when one of
  the waits times out or a measurement never ends.
\<close>

fun pulses :: "nat \<Rightarrow> hw \<Rightarrow> (u32 list \<times> hw) option" where
  "pulses 0 h = Some ([], h)"
| "pulses (Suc n) h =
     (case wait_while False 0 h of (timeout, h1) \<Rightarrow>
        if 200 \<le> timeout then None
        else (case measure_pulse h1 of
                None \<Rightarrow> None
              | Some (pulse_duration_us, h2) \<Rightarrow>
                  map_option (\<lambda>(ds, h3). (pulse_duration_us # ds, h3)) (pulses n h2)))"

text \<open>The bit indices with a line in the debug log.\<close>

definition logged :: "nat \<Rightarrow> bool" where
  "logged i = (i < 16 \<or> i mod 8 = 7)"

text \<open>The error line the debug read writes at each of its \<^verbatim>\<open>return false\<close>.\<close>

fun error_entry :: "failure \<Rightarrow> string" where
  "error_entry NoResponse = ''ERROR: No response from DHT11\<newline>''"
| "error_entry InvalidResponseTiming = ''ERROR: Invalid response timing\<newline>''"
| "error_entry ResponseTooLong = ''ERROR: Response too long\<newline>''"
| "error_entry (BitTimeout i) = temp_msg (''ERROR: Bit '' @ dec i @ '' start timeout\<newline>'')"
| "error_entry ChecksumMismatch = ''ERROR: Checksum mismatch\<newline>''"
| "error_entry OutOfRange = ''ERROR: Values out of range\<newline>''"


text \<open>
  A log that has used at most \<open>B\<close> bytes of the buffer without losing anything: the
  buffer holds the texts of all calls one after the other, \<^verbatim>\<open>log_pos\<close> is the length
  of what it holds, and every call got an offset at which its whole text ended within
  the first \<open>B\<close> bytes.
\<close>

definition log_fits :: "nat \<Rightarrow> dstate \<Rightarrow> bool" where
  "log_fits B d =
     (unat (log_pos d) \<le> B
      \<and> debug_log (dapp d) = concat (map snd (calls d))
      \<and> length (debug_log (dapp d)) = unat (log_pos d)
      \<and> list_all (\<lambda>(off, s). unat off + length s \<le> B) (calls d))"

section \<open>Example hardware\<close>

text \<open>
  A sensor that answers every wait at the first poll and sends the frame \<open>fr\<close> with high
  periods of 70 microseconds (4480 cycles) for a one and of no measurable length for a
  zero. The plain read polls the pin first in the handshake; the debug read samples it
  once before, so its levels are shifted by one read.
\<close>

definition sensor_cycles :: "u8 list \<Rightarrow> nat \<Rightarrow> u32" where
  "sensor_cycles fr k = (if odd k \<and> frame_bit fr (k div 2) then 4480 else 0)"

definition sensor_plain :: "u8 list \<Rightarrow> hw" where
  "sensor_plain fr =
     \<lparr>pin_level = odd, pin_reads = 0, cyccnt = sensor_cycles fr, cyc_reads = 0\<rparr>"

definition sensor_debug :: "u8 list \<Rightarrow> hw" where
  "sensor_debug fr =
     \<lparr>pin_level = even, pin_reads = 0, cyccnt = sensor_cycles fr, cyc_reads = 0\<rparr>"


text \<open>
  A line that stays high after the start of a bit, with a counter that advances by
  6432 cycles (100.5 microseconds) from one read to the next.
\<close>

definition stuck_high :: hw where
  "stuck_high =
     \<lparr>pin_level = (\<lambda>k. True), pin_reads = 0,
      cyccnt = (\<lambda>k. 6432 * of_nat k), cyc_reads = 0\<rparr>"

text \<open>
  One bit on the line: the first poll finds the line high, the second finds it low
  again, and the counter has advanced by \<open>c\<close> cycles in between.
\<close>

definition pulse_hw :: "u32 \<Rightarrow> hw" where
  "pulse_hw c =
     \<lparr>pin_level = (\<lambda>k. k = 0), pin_reads = 0,
      cyccnt = (\<lambda>k. if k = 0 then 0 else c), cyc_reads = 0\<rparr>"

text \<open>The application structure as \<^verbatim>\<open>dht11_app\<close> initialises it.\<close>

definition app0 :: DHT11App where
  "app0 = \<lparr>temperature = 0, humidity = 0, sensor_ok = False, debug_log = []\<rparr>"

text \<open>The state of the log when a debug read has just cleared it.\<close>

definition dstate0 :: dstate where
  "dstate0 = \<lparr>dapp = app0, log_pos = 0, calls = []\<rparr>"

section \<open>The log state under an append\<close>

lemma calls_log_append [simp]: "calls (log_append s d) = calls d @ [(log_pos d, s)]"
  by (simp add: log_append_def)

lemma log_pos_log_append [simp]: "log_pos (log_append s d) = log_pos d + of_nat (length s)"
  by (simp add: log_append_def)

lemma temperature_log_append [simp]:
  "temperature (dapp (log_append s d)) = temperature (dapp d)"
  by (simp add: log_append_def)

lemma humidity_log_append [simp]: "humidity (dapp (log_append s d)) = humidity (dapp d)"
  by (simp add: log_append_def)

lemma sensor_ok_log_append [simp]: "sensor_ok (dapp (log_append s d)) = sensor_ok (dapp d)"
  by (simp add: log_append_def)

lemma out_of_range_log_append [simp]:
  "out_of_range (dapp (log_append s d)) = out_of_range (dapp d)"
  by (simp add: out_of_range_def)

section \<open>Frame validation\<close>

lemma sign_bit_test: "(b AND 0x80 \<noteq> 0) = bit b 7" for b :: u8
  using and_exp_eq_0_iff_not_bit [of b 7] by simp

lemma u8_sum_unat:
  "(h + hf + t + tf = c) = (unat c = (unat h + unat hf + unat t + unat tf) mod 256)"
  for c h hf t tf :: u8
proof -
  have "unat (h + hf + t + tf) = (unat h + unat hf + unat t + unat tf) mod 256"
    by (simp add: unat_word_ariths mod_simps)
  then show ?thesis
    by (auto simp only: word_unat_eq_iff)
qed

lemma validate_checksum_fail:
  "data ! 0 + data ! 1 + data ! 2 + data ! 3 \<noteq> data ! 4 \<Longrightarrow>
     validate data app = (Inl ChecksumMismatch, app)"
  by (simp add: validate_def)

lemma validate_checksum_ok:
  "data ! 0 + data ! 1 + data ! 2 + data ! 3 = data ! 4 \<Longrightarrow>
     validate data app =
       (let app' = app\<lparr>humidity := uint (data ! 0),
                temperature := (if bit (data ! 2) 7 then - uint ((data ! 2) AND 0x7F)
                                else uint (data ! 2))\<rparr>
        in (if out_of_range app' then Inl OutOfRange else Inr (), app'))"
  by (simp add: validate_def Let_def sign_bit_test)

lemma debug_validate_checksum_fail:
  "data ! 0 + data ! 1 + data ! 2 + data ! 3 \<noteq> data ! 4 \<Longrightarrow>
     fst (debug_validate n data d) = Inl ChecksumMismatch
     \<and> temperature (dapp (snd (debug_validate n data d))) = temperature (dapp d)
     \<and> humidity (dapp (snd (debug_validate n data d))) = humidity (dapp d)"
  by (simp add: debug_validate_def Let_def)

lemma debug_validate_checksum_ok:
  "data ! 0 + data ! 1 + data ! 2 + data ! 3 = data ! 4 \<Longrightarrow>
     fst (debug_validate n data d) =
       (if out_of_range ((dapp d)\<lparr>humidity := uint (data ! 0), temperature := uint (data ! 2)\<rparr>)
        then Inl OutOfRange else Inr ())
     \<and> temperature (dapp (snd (debug_validate n data d))) = uint (data ! 2)
     \<and> humidity (dapp (snd (debug_validate n data d))) = uint (data ! 0)"
  by (simp add: debug_validate_def Let_def out_of_range_def)


section \<open>The polling loop\<close>

lemma wait_while_bound:
  "wait_while level t h = (t', h') \<Longrightarrow> t \<le> 200 \<Longrightarrow> t' \<le> 200"
proof (induction level t h rule: wait_while.induct)
  case (1 level timeout h)
  show ?case
  proof (cases "pin_level h (pin_reads h) = level \<and> timeout < 200")
    case True
    with "1.prems" have "wait_while level (Suc timeout) (h\<lparr>pin_reads := Suc (pin_reads h)\<rparr>) = (t', h')"
      by (simp add: wait_while.simps [of level timeout h] furi_hal_gpio_read_def)
    with True "1.IH" show ?thesis
      by (simp add: furi_hal_gpio_read_def)
  next
    case False
    with "1.prems" show ?thesis
      by (auto simp add: wait_while.simps [of level timeout h] furi_hal_gpio_read_def)
  qed
qed

section \<open>One pass of the data loops\<close>

lemma read_bits_done: "\<not> i < 40 \<Longrightarrow> read_bits i data h = Some (Inr data, h)"
  by (simp add: read_bits.simps [of i data h])

lemma read_bits_timeout:
  "i < 40 \<Longrightarrow> wait_while False 0 h = (t, h1) \<Longrightarrow> 200 \<le> t \<Longrightarrow>
     read_bits i data h = Some (Inl (BitTimeout i), h1)"
  by (simp add: read_bits.simps [of i data h])

lemma read_bits_step:
  "i < 40 \<Longrightarrow> wait_while False 0 h = (t, h1) \<Longrightarrow> t < 200 \<Longrightarrow>
   measure_pulse h1 = Some (p, h2) \<Longrightarrow>
     read_bits i data h = read_bits (Suc i) (store_bit i p data) h2"
  by (simp add: read_bits.simps [of i data h])

lemma read_bits_diverge:
  "i < 40 \<Longrightarrow> wait_while False 0 h = (t, h1) \<Longrightarrow> t < 200 \<Longrightarrow>
   measure_pulse h1 = None \<Longrightarrow> read_bits i data h = None"
  by (simp add: read_bits.simps [of i data h])

lemma debug_read_bits_done:
  "\<not> i < 40 \<Longrightarrow> debug_read_bits i n data d h = Some (Inr (n, data), d, h)"
  by (simp add: debug_read_bits.simps [of i n data d h])

lemma debug_read_bits_timeout:
  "i < 40 \<Longrightarrow> wait_while False 0 h = (t, h1) \<Longrightarrow> 200 \<le> t \<Longrightarrow>
     debug_read_bits i n data d h =
       Some (Inl (BitTimeout i), log_append (error_entry (BitTimeout i)) d, h1)"
  by (simp add: debug_read_bits.simps [of i n data d h])

lemma debug_read_bits_step:
  "i < 40 \<Longrightarrow> wait_while False 0 h = (t, h1) \<Longrightarrow> t < 200 \<Longrightarrow>
   measure_pulse h1 = Some (p, h2) \<Longrightarrow>
     debug_read_bits i n data d h =
       debug_read_bits (Suc i) (Suc n) (store_bit i p data) (log_bit i p d) h2"
  by (simp add: debug_read_bits.simps [of i n data d h])

lemma debug_read_bits_diverge:
  "i < 40 \<Longrightarrow> wait_while False 0 h = (t, h1) \<Longrightarrow> t < 200 \<Longrightarrow>
   measure_pulse h1 = None \<Longrightarrow> debug_read_bits i n data d h = None"
  by (simp add: debug_read_bits.simps [of i n data d h])

section \<open>The debug read follows the control flow of the plain read\<close>

lemma debug_handshake_flow:
  "(case debug_handshake d h of (r, d', h') \<Rightarrow> (r, h')) = handshake h"
  by (simp add: debug_handshake_def handshake_def Let_def split: prod.splits)

lemma debug_read_bits_flow:
  "map_option (\<lambda>(r, d', h'). (map_sum id snd r, h')) (debug_read_bits i n data d h)
     = read_bits i data h"
proof (induction i n data d h rule: debug_read_bits.induct)
  case (1 i bits_read data d h)
  show ?case
  proof (cases "i < 40")
    case False
    then show ?thesis by (simp add: read_bits_done debug_read_bits_done)
  next
    case True
    obtain t h1 where w: "wait_while False 0 h = (t, h1)"
      by (cases "wait_while False 0 h")
    show ?thesis
    proof (cases "200 \<le> t")
      case True
      with \<open>i < 40\<close> w show ?thesis
        by (simp add: read_bits_timeout debug_read_bits_timeout)
    next
      case False
      then have t: "t < 200" by simp
      show ?thesis
      proof (cases "measure_pulse h1")
        case None
        with \<open>i < 40\<close> w t show ?thesis
          by (simp add: read_bits_diverge debug_read_bits_diverge)
      next
        case (Some ph)
        obtain p h2 where ph: "ph = (p, h2)" by (cases ph)
        from "1.IH" [OF \<open>i < 40\<close> w [symmetric] False Some ph [symmetric]]
        show ?thesis
          using \<open>i < 40\<close> w t Some ph
          by (simp add: read_bits_step debug_read_bits_step)
      qed
    qed
  qed
qed

section \<open>Packing the bits\<close>

lemma index_split: "i div 8 = j div 8 \<Longrightarrow> 7 - i mod 8 = 7 - j mod 8 \<Longrightarrow> i = j" for i j :: nat
proof -
  assume d: "i div 8 = j div 8" and m: "7 - i mod 8 = 7 - j mod 8"
  have "i mod 8 < 8" "j mod 8 < 8" by simp_all
  with m have "i mod 8 = j mod 8" by arith
  with d show "i = j" by (metis div_mult_mod_eq)
qed

lemma bit_mask_u8: "k < 8 \<Longrightarrow> bit (2 ^ k :: u8) m = (m = k)"
  by (auto simp add: bit_exp_iff)

lemma frame_bit_set_data_bit:
  assumes "i < 40" and "length data = 5"
  shows "frame_bit (set_data_bit i data) j = (frame_bit data j \<or> j = i)"
proof -
  have len: "i div 8 < length data" using assms by simp
  have k: "7 - i mod 8 < 8" by simp
  show ?thesis
  proof (cases "j div 8 = i div 8")
    case True
    then have "frame_bit (set_data_bit i data) j
        = (bit (data ! (i div 8)) (7 - j mod 8) \<or> 7 - j mod 8 = 7 - i mod 8)"
      using len by (simp add: frame_bit_def set_data_bit_def Let_def bit_or_iff bit_mask_u8 [OF k])
    also have "\<dots> = (frame_bit data j \<or> j = i)"
      using True index_split [of j i] by (auto simp add: frame_bit_def)
    finally show ?thesis .
  next
    case False
    then have "j \<noteq> i" by auto
    with False show ?thesis
      by (simp add: frame_bit_def set_data_bit_def Let_def)
  qed
qed

lemma length_store_bit [simp]: "length (store_bit i p data) = length data"
  by (simp add: store_bit_def set_data_bit_def Let_def)

lemma frame_bit_store_bit:
  "i < 40 \<Longrightarrow> length data = 5 \<Longrightarrow>
     frame_bit (store_bit i p data) j = (frame_bit data j \<or> (j = i \<and> bit_value p))"
  by (simp add: store_bit_def frame_bit_set_data_bit)

lemma frame_bit_zero: "j < 40 \<Longrightarrow> \<not> frame_bit [0, 0, 0, 0, 0] j"
proof -
  assume "j < 40"
  then have "j div 8 < 5" by simp
  then have "[0, 0, 0, 0, 0 :: u8] ! (j div 8) = 0"
    by (simp add: nth_Cons' )
  then show ?thesis by (simp add: frame_bit_def)
qed

lemma read_bits_pulses:
  "read_bits i data h = Some (Inr data', h') \<Longrightarrow> i \<le> 40 \<Longrightarrow> length data = 5 \<Longrightarrow>
   \<exists>ds. pulses (40 - i) h = Some (ds, h') \<and> length ds = 40 - i \<and> length data' = 5
     \<and> (\<forall>j<40. frame_bit data' j
           = (frame_bit data j \<or> (i \<le> j \<and> bit_value (ds ! (j - i)))))"
proof (induction i data h arbitrary: data' h' rule: read_bits.induct)
  case (1 i data h)
  show ?case
  proof (cases "i < 40")
    case False
    with "1.prems" have i: "i = 40" by simp
    from "1.prems"(1) False have "data' = data" "h' = h"
      by (simp_all add: read_bits_done)
    with i "1.prems"(3) show ?thesis by simp
  next
    case True
    obtain t h1 where w: "wait_while False 0 h = (t, h1)"
      by (cases "wait_while False 0 h")
    have t: "\<not> 200 \<le> t"
    proof
      assume "200 \<le> t"
      with True w have "read_bits i data h = Some (Inl (BitTimeout i), h1)"
        by (rule read_bits_timeout)
      with "1.prems"(1) show False by simp
    qed
    have "measure_pulse h1 \<noteq> None"
    proof
      assume "measure_pulse h1 = None"
      with True w t have "read_bits i data h = None"
        by (simp add: read_bits_diverge)
      with "1.prems"(1) show False by simp
    qed
    then obtain p h2 where m: "measure_pulse h1 = Some (p, h2)"
      by (cases "measure_pulse h1") auto
    from True w t m "1.prems"(1)
    have next_bits: "read_bits (Suc i) (store_bit i p data) h2 = Some (Inr data', h')"
      by (simp add: read_bits_step)
    from "1.IH" [OF True w [symmetric] t m refl next_bits] True "1.prems"(3)
    obtain ds where ds: "pulses (40 - Suc i) h2 = Some (ds, h')"
      "length ds = 40 - Suc i" "length data' = 5"
      "\<forall>j<40. frame_bit data' j
          = (frame_bit (store_bit i p data) j \<or> (Suc i \<le> j \<and> bit_value (ds ! (j - Suc i))))"
      by auto
    from True have n: "40 - i = Suc (40 - Suc i)" by simp
    have "pulses (40 - i) h = Some (p # ds, h')"
      using w t m ds(1) by (simp add: n)
    moreover have "length (p # ds) = 40 - i"
      using ds(2) n by simp
    moreover have "\<forall>j<40. frame_bit data' j
          = (frame_bit data j \<or> (i \<le> j \<and> bit_value ((p # ds) ! (j - i))))"
    proof (intro allI impI)
      fix j :: nat
      assume j: "j < 40"
      with ds(4) have "frame_bit data' j
          = (frame_bit (store_bit i p data) j \<or> (Suc i \<le> j \<and> bit_value (ds ! (j - Suc i))))"
        by simp
      also have "\<dots> = (frame_bit data j \<or> (j = i \<and> bit_value p)
                         \<or> (Suc i \<le> j \<and> bit_value (ds ! (j - Suc i))))"
        using True "1.prems"(3) by (simp add: frame_bit_store_bit)
      also have "\<dots> = (frame_bit data j \<or> (i \<le> j \<and> bit_value ((p # ds) ! (j - i))))"
        by (cases "j = i") (auto simp add: nth_Cons' Suc_le_eq)
      finally show "frame_bit data' j
          = (frame_bit data j \<or> (i \<le> j \<and> bit_value ((p # ds) ! (j - i))))" .
    qed
    ultimately show ?thesis using ds(3) by blast
  qed
qed

section \<open>The log of the data loop\<close>

lemma calls_log_bit:
  "map snd (calls (log_bit i p d))
     = map snd (calls d) @ (if logged i then [bit_entry i p] else [])"
  by (simp add: log_bit_def logged_def)

lemma logged_from:
  "i < 40 \<Longrightarrow> filter logged [i..<40]
     = (if logged i then [i] else []) @ filter logged [Suc i..<40]"
  by (simp add: upt_conv_Cons)

lemma debug_read_bits_log:
  "debug_read_bits i n data d h = Some (Inr (n', data'), d', h') \<Longrightarrow> i \<le> 40 \<Longrightarrow>
   \<exists>ds. pulses (40 - i) h = Some (ds, h') \<and> length ds = 40 - i \<and> n' = n + (40 - i)
     \<and> map snd (calls d')
         = map snd (calls d) @ map (\<lambda>j. bit_entry j (ds ! (j - i))) (filter logged [i..<40])"
proof (induction i n data d h arbitrary: n' data' d' h' rule: debug_read_bits.induct)
  case (1 i n data d h)
  show ?case
  proof (cases "i < 40")
    case False
    with "1.prems" have i: "i = 40" by simp
    from "1.prems"(1) False have "n' = n" "d' = d" "h' = h"
      by (simp_all add: debug_read_bits_done)
    with i show ?thesis by simp
  next
    case True
    obtain t h1 where w: "wait_while False 0 h = (t, h1)"
      by (cases "wait_while False 0 h")
    have t: "\<not> 200 \<le> t"
    proof
      assume "200 \<le> t"
      with True w "1.prems"(1) show False
        by (simp add: debug_read_bits_timeout)
    qed
    have "measure_pulse h1 \<noteq> None"
    proof
      assume "measure_pulse h1 = None"
      with True w t "1.prems"(1) show False
        by (simp add: debug_read_bits_diverge)
    qed
    then obtain p h2 where m: "measure_pulse h1 = Some (p, h2)"
      by (cases "measure_pulse h1") auto
    from True w t m "1.prems"(1)
    have next_bits: "debug_read_bits (Suc i) (Suc n) (store_bit i p data) (log_bit i p d) h2
        = Some (Inr (n', data'), d', h')"
      by (simp add: debug_read_bits_step)
    from "1.IH" [OF True w [symmetric] t m refl next_bits] True
    obtain ds where ds: "pulses (40 - Suc i) h2 = Some (ds, h')"
      "length ds = 40 - Suc i" "n' = Suc n + (40 - Suc i)"
      "map snd (calls d') = map snd (calls (log_bit i p d))
          @ map (\<lambda>j. bit_entry j (ds ! (j - Suc i))) (filter logged [Suc i..<40])"
      by auto
    from True have k: "40 - i = Suc (40 - Suc i)" by simp
    have "pulses (40 - i) h = Some (p # ds, h')"
      using w t m ds(1) by (simp add: k)
    moreover have "length (p # ds) = 40 - i"
      using ds(2) k by simp
    moreover have "n' = n + (40 - i)"
      using ds(3) k by simp
    moreover have "map (\<lambda>j. bit_entry j (ds ! (j - Suc i))) (filter logged [Suc i..<40])
        = map (\<lambda>j. bit_entry j ((p # ds) ! (j - i))) (filter logged [Suc i..<40])"
      by (rule map_cong) (auto simp add: nth_Cons' Suc_le_eq)
    then have "map snd (calls d')
        = map snd (calls d)
          @ map (\<lambda>j. bit_entry j ((p # ds) ! (j - i))) (filter logged [i..<40])"
      using ds(4) True by (simp add: calls_log_bit logged_from)
    ultimately show ?thesis by blast
  qed
qed

lemma debug_read_bits_failure:
  "debug_read_bits i n data d h = Some (Inl e, d', h') \<Longrightarrow>
   \<exists>k pre. e = BitTimeout k \<and> i \<le> k \<and> k < 40
     \<and> map snd (calls d') = pre @ [error_entry e]"
proof (induction i n data d h rule: debug_read_bits.induct)
  case (1 i n data d h)
  show ?case
  proof (cases "i < 40")
    case False
    with "1.prems" show ?thesis by (simp add: debug_read_bits_done)
  next
    case True
    obtain t h1 where w: "wait_while False 0 h = (t, h1)"
      by (cases "wait_while False 0 h")
    show ?thesis
    proof (cases "200 \<le> t")
      case True
      with \<open>i < 40\<close> w "1.prems"
      have "e = BitTimeout i \<and> d' = log_append (error_entry (BitTimeout i)) d"
        by (auto simp add: debug_read_bits_timeout)
      with \<open>i < 40\<close> show ?thesis by simp
    next
      case False
      have "measure_pulse h1 \<noteq> None"
      proof
        assume "measure_pulse h1 = None"
        with \<open>i < 40\<close> w False "1.prems" show False
          by (simp add: debug_read_bits_diverge)
      qed
      then obtain p h2 where m: "measure_pulse h1 = Some (p, h2)"
        by (cases "measure_pulse h1") auto
      from \<open>i < 40\<close> w False m "1.prems"
      have "debug_read_bits (Suc i) (Suc n) (store_bit i p data) (log_bit i p d) h2
          = Some (Inl e, d', h')"
        by (simp add: debug_read_bits_step)
      from "1.IH" [OF \<open>i < 40\<close> w [symmetric] False m refl this]
      show ?thesis by (auto intro: Suc_leD)
    qed
  qed
qed

section \<open>Decimal text\<close>

lemma dec_length: "n < 10 ^ k \<Longrightarrow> 0 < k \<Longrightarrow> length (dec n) \<le> k"
proof (induction n arbitrary: k rule: dec.induct)
  case (1 n)
  show ?case
  proof (cases "n < 10")
    case True
    with "1.prems" show ?thesis by (simp add: dec.simps [of n])
  next
    case False
    with "1.prems" have k: "1 < k"
      by (cases "k = 1") auto
    then obtain k' where k': "k = Suc k'" "0 < k'"
      by (cases k) auto
    with "1.prems" have "n div 10 < 10 ^ k'"
      by (simp add: less_mult_imp_div_less mult.commute)
    from "1.IH" [OF False this k'(2)] k'(1) False show ?thesis
      by (simp add: dec.simps [of n])
  qed
qed

lemma dec_length_u32: "length (dec (unat (p :: u32))) \<le> 10"
proof -
  have "unat p < 2 ^ 32" using unsigned_less [of p] by simp
  then have "unat p < 10 ^ 10" by simp
  then show ?thesis by (rule dec_length) simp
qed

lemma dec_length_bit_index: "i < 40 \<Longrightarrow> length (dec i) \<le> 2"
  by (rule dec_length) simp_all

lemma bit_entry_text:
  assumes "i < 40"
  shows "bit_entry i p = ''Bit '' @ dec i @ '': '' @ dec (unat p) @ ''ms = ''
           @ (if 40 < unat p then ''1'' else ''0'')
           @ (if i < 16 then '' (th:40)\<newline>'' else ''\<newline>'')"
proof -
  have v: "bit_value p = (40 < unat p)"
    by (simp add: bit_value_def word_less_nat_alt)
  have "length (dec i) \<le> 2" using assms by (rule dec_length_bit_index)
  moreover have "length (dec (unat p)) \<le> 10" by (rule dec_length_u32)
  ultimately show ?thesis
    by (simp add: bit_entry_def temp_msg_def v)
qed


section \<open>Reception as a whole\<close>

lemma receive_frame:
  "receive h = Some (Inr data, h') \<Longrightarrow>
   \<exists>h1. handshake h = (Inr (), h1) \<and> read_bits 0 [0, 0, 0, 0, 0] h1 = Some (Inr data, h')"
  by (cases "handshake h") (auto simp add: receive_def split: sum.splits)

lemma debug_receive_frame:
  "debug_receive app h = Some (Inr (n, data), d, h') \<Longrightarrow>
   \<exists>d1 h1. debug_handshake (fst (debug_start app h)) (snd (debug_start app h)) = (Inr (), d1, h1)
     \<and> debug_read_bits 0 0 [0, 0, 0, 0, 0] d1 h1 = Some (Inr (n, data), d, h')"
  by (cases "debug_start app h";
      cases "debug_handshake (fst (debug_start app h)) (snd (debug_start app h))")
     (auto simp add: debug_receive_def split: sum.splits)

lemma debug_start_hw: "snd (debug_start app h) = snd (furi_hal_gpio_read h)"
  by (simp add: debug_start_def Let_def split: prod.splits)

lemma debug_receive_flow:
  "map_option (\<lambda>(r, d, h'). (map_sum id snd r, h')) (debug_receive app h)
     = receive (snd (furi_hal_gpio_read h))"
proof -
  obtain d0 h0 where s: "debug_start app h = (d0, h0)"
    by (cases "debug_start app h")
  with debug_start_hw [of app h] have h0: "snd (furi_hal_gpio_read h) = h0" by simp
  obtain r d1 h1 where hs: "debug_handshake d0 h0 = (r, d1, h1)"
    by (cases "debug_handshake d0 h0")
  with debug_handshake_flow [of d0 h0] have p: "handshake h0 = (r, h1)" by simp
  show ?thesis
  proof (cases r)
    case (Inl e)
    with s hs p h0 show ?thesis by (simp add: debug_receive_def receive_def)
  next
    case (Inr u)
    with s hs p h0 debug_read_bits_flow [of 0 0 "[0, 0, 0, 0, 0]" d1 h1] show ?thesis
      by (simp add: debug_receive_def receive_def)
  qed
qed

section \<open>Example runs\<close>

lemma sensor_plain_run:
  "\<exists>h'. receive (sensor_plain [0x32, 0, 0x18, 0, 0x4A]) = Some (Inr [0x32, 0, 0x18, 0, 0x4A], h')"
proof -
  have "map_option fst (receive (sensor_plain [0x32, 0, 0x18, 0, 0x4A]))
      = Some (Inr [0x32, 0, 0x18, 0, 0x4A])"
    by code_simp
  then show ?thesis by auto
qed

lemma sensor_debug_run:
  "\<exists>n d h'. debug_receive app0 (sensor_debug [0x32, 0, 0x18, 0, 0x4A])
     = Some (Inr (n, [0x32, 0, 0x18, 0, 0x4A]), d, h')"
proof -
  have "map_option fst (receive (snd (furi_hal_gpio_read (sensor_debug [0x32, 0, 0x18, 0, 0x4A]))))
      = Some (Inr [0x32, 0, 0x18, 0, 0x4A])"
    by code_simp
  then have "map_option fst (map_option (\<lambda>(r, d, h'). (map_sum id snd r, h'))
      (debug_receive app0 (sensor_debug [0x32, 0, 0x18, 0, 0x4A])))
      = Some (Inr [0x32, 0, 0x18, 0, 0x4A])"
    by (simp only: debug_receive_flow)
  then obtain r d h' where
    r: "debug_receive app0 (sensor_debug [0x32, 0, 0x18, 0, 0x4A]) = Some (r, d, h')"
    and "map_sum id snd r = Inr [0x32, 0, 0x18, 0, 0x4A]"
    by auto
  then obtain n where "r = Inr (n, [0x32, 0, 0x18, 0, 0x4A])"
    by (cases r) auto
  with r show ?thesis by blast
qed

text \<open>
  C5. Forty bits, packed high bit first. Whenever the reception of either read
  completes with a frame, the handshake succeeded, exactly 40 pulses were measured
  after it, one after the other, the frame has five bytes, and bit \<open>7 - i mod 8\<close> of
  byte \<open>i div 8\<close> is set exactly when pulse \<open>i\<close> was longer than 40 microseconds. The
  debug read has counted 40 bits.
\<close>

theorem frame_packing:
  "(receive h = Some (Inr data, h') \<longrightarrow>
      (\<exists>h1 ds. handshake h = (Inr (), h1) \<and> pulses 40 h1 = Some (ds, h')
         \<and> length ds = 40 \<and> length data = 5
         \<and> (\<forall>i<40. bit (data ! (i div 8)) (7 - i mod 8) = (40 < unat (ds ! i)))))
   \<and> (debug_receive app g = Some (Inr (n, data), d, g') \<longrightarrow>
      n = 40
      \<and> (\<exists>d1 g1 ds.
            debug_handshake (fst (debug_start app g)) (snd (debug_start app g)) = (Inr (), d1, g1)
         \<and> pulses 40 g1 = Some (ds, g')
         \<and> length ds = 40 \<and> length data = 5
         \<and> (\<forall>i<40. bit (data ! (i div 8)) (7 - i mod 8) = (40 < unat (ds ! i)))))"
proof (intro conjI impI)
  assume "receive h = Some (Inr data, h')"
  then obtain h1 where h1: "handshake h = (Inr (), h1)"
    and b: "read_bits 0 [0, 0, 0, 0, 0] h1 = Some (Inr data, h')"
    using receive_frame by blast
  from read_bits_pulses [OF b] obtain ds where
    "pulses 40 h1 = Some (ds, h')" "length ds = 40" "length data = 5"
    "\<forall>j<40. frame_bit data j = bit_value (ds ! j)"
    by (auto simp add: frame_bit_zero)
  with h1 show "\<exists>h1 ds. handshake h = (Inr (), h1) \<and> pulses 40 h1 = Some (ds, h')
         \<and> length ds = 40 \<and> length data = 5
         \<and> (\<forall>i<40. bit (data ! (i div 8)) (7 - i mod 8) = (40 < unat (ds ! i)))"
    by (auto simp add: frame_bit_def bit_value_def word_less_nat_alt)
next
  assume a: "debug_receive app g = Some (Inr (n, data), d, g')"
  then obtain d1 g1 where
    hs: "debug_handshake (fst (debug_start app g)) (snd (debug_start app g)) = (Inr (), d1, g1)"
    and b: "debug_read_bits 0 0 [0, 0, 0, 0, 0] d1 g1 = Some (Inr (n, data), d, g')"
    using debug_receive_frame by blast
  from debug_read_bits_log [OF b] show "n = 40" by auto
  from debug_read_bits_flow [of 0 0 "[0, 0, 0, 0, 0]" d1 g1] b
  have "read_bits 0 [0, 0, 0, 0, 0] g1 = Some (Inr data, g')" by simp
  from read_bits_pulses [OF this] obtain ds where
    "pulses 40 g1 = Some (ds, g')" "length ds = 40" "length data = 5"
    "\<forall>j<40. frame_bit data j = bit_value (ds ! j)"
    by (auto simp add: frame_bit_zero)
  with hs show "\<exists>d1 g1 ds.
            debug_handshake (fst (debug_start app g)) (snd (debug_start app g)) = (Inr (), d1, g1)
         \<and> pulses 40 g1 = Some (ds, g')
         \<and> length ds = 40 \<and> length data = 5
         \<and> (\<forall>i<40. bit (data ! (i div 8)) (7 - i mod 8) = (40 < unat (ds ! i)))"
    by (auto simp add: frame_bit_def bit_value_def word_less_nat_alt)
qed

theorem frame_packing_witness:
  "(\<exists>h' h1 ds. receive (sensor_plain [0x32, 0, 0x18, 0, 0x4A])
        = Some (Inr [0x32, 0, 0x18, 0, 0x4A], h')
      \<and> handshake (sensor_plain [0x32, 0, 0x18, 0, 0x4A]) = (Inr (), h1)
      \<and> pulses 40 h1 = Some (ds, h') \<and> length ds = 40
      \<and> (\<forall>i<40. bit ([0x32, 0, 0x18, 0, 0x4A :: u8] ! (i div 8)) (7 - i mod 8)
             = (40 < unat (ds ! i))))
   \<and> (\<exists>n d g'. debug_receive app0 (sensor_debug [0x32, 0, 0x18, 0, 0x4A])
        = Some (Inr (n, [0x32, 0, 0x18, 0, 0x4A]), d, g') \<and> n = 40)"
proof -
  obtain h' where p: "receive (sensor_plain [0x32, 0, 0x18, 0, 0x4A])
      = Some (Inr [0x32, 0, 0x18, 0, 0x4A], h')"
    using sensor_plain_run by blast
  obtain n d g' where q: "debug_receive app0 (sensor_debug [0x32, 0, 0x18, 0, 0x4A])
      = Some (Inr (n, [0x32, 0, 0x18, 0, 0x4A]), d, g')"
    using sensor_debug_run by blast
  from p q frame_packing [of "sensor_plain [0x32, 0, 0x18, 0, 0x4A]" "[0x32, 0, 0x18, 0, 0x4A]" h'
      app0 "sensor_debug [0x32, 0, 0x18, 0, 0x4A]" n d g']
  show ?thesis by blast
qed

text \<open>
  C4. Bit discrimination. When bit \<open>i\<close> starts in time and its high period is measured
  as \<open>d\<close> whole microseconds, the data loop of either read goes on to the next bit with
  position \<open>i\<close> of the frame set if \<open>d\<close> is above 40 and with the frame as it was if
  \<open>d\<close> is 40 or less; the debug read logs the same value.
\<close>

theorem bit_discrimination:
  assumes "i < 40" and "wait_while False 0 h = (t, h1)" and "t < 200"
    and "measure_pulse h1 = Some (d, h2)"
  shows "read_bits i data h
           = read_bits (Suc i) (if 40 < unat d then set_data_bit i data else data) h2
         \<and> debug_read_bits i n data dd h
           = debug_read_bits (Suc i) (Suc n)
               (if 40 < unat d then set_data_bit i data else data) (log_bit i d dd) h2
         \<and> bit_value d = (40 < unat d)"
proof -
  have v: "bit_value d = (40 < unat d)"
    by (simp add: bit_value_def word_less_nat_alt)
  then have "store_bit i d data = (if 40 < unat d then set_data_bit i data else data)"
    by (simp add: store_bit_def)
  with assms v show ?thesis
    using read_bits_step [of i h t h1 d h2 data]
          debug_read_bits_step [of i h t h1 d h2 n data dd]
    by simp
qed

lemma pulse_hw_wait:
  "wait_while False 0 (pulse_hw c) = (0, (pulse_hw c)\<lparr>pin_reads := 1\<rparr>)"
  by (subst wait_while.simps) (simp add: furi_hal_gpio_read_def pulse_hw_def)

lemma pulse_hw_measure:
  "measure_pulse ((pulse_hw c)\<lparr>pin_reads := 1\<rparr>)
     = Some (c div 64, (pulse_hw c)\<lparr>pin_reads := 2, cyc_reads := 2\<rparr>)"
  by (simp add: measure_pulse_def measure_loop.simps read_CYCCNT_def furi_hal_gpio_read_def
        pulse_hw_def)

theorem bit_discrimination_witness:
  "read_bits 0 [0, 0, 0, 0, 0] (pulse_hw 2624)
     = read_bits 1 (set_data_bit 0 [0, 0, 0, 0, 0]) ((pulse_hw 2624)\<lparr>pin_reads := 2, cyc_reads := 2\<rparr>)
   \<and> debug_read_bits 0 0 [0, 0, 0, 0, 0] dstate0 (pulse_hw 2624)
     = debug_read_bits 1 1 (set_data_bit 0 [0, 0, 0, 0, 0]) (log_bit 0 41 dstate0)
         ((pulse_hw 2624)\<lparr>pin_reads := 2, cyc_reads := 2\<rparr>)
   \<and> bit_value 41
   \<and> read_bits 0 [0, 0, 0, 0, 0] (pulse_hw 2623)
     = read_bits 1 [0, 0, 0, 0, 0] ((pulse_hw 2623)\<lparr>pin_reads := 2, cyc_reads := 2\<rparr>)
   \<and> \<not> bit_value 40
   \<and> read_bits 0 [0, 0, 0, 0, 0] (pulse_hw 0)
     = read_bits 1 [0, 0, 0, 0, 0] ((pulse_hw 0)\<lparr>pin_reads := 2, cyc_reads := 2\<rparr>)
   \<and> \<not> bit_value 0"
  using bit_discrimination [OF _ pulse_hw_wait [of 2624] _ pulse_hw_measure [of 2624],
          of 0 "[0, 0, 0, 0, 0]" 0 dstate0]
        bit_discrimination [OF _ pulse_hw_wait [of 2623] _ pulse_hw_measure [of 2623],
          of 0 "[0, 0, 0, 0, 0]" 0 dstate0]
        bit_discrimination [OF _ pulse_hw_wait [of 0] _ pulse_hw_measure [of 0],
          of 0 "[0, 0, 0, 0, 0]" 0 dstate0]
  by simp



section \<open>The log stays within the buffer\<close>

lemma log_fits_mono: "log_fits B d \<Longrightarrow> B \<le> B' \<Longrightarrow> log_fits B' d"
  by (auto simp add: log_fits_def list_all_iff)

lemma log_fits_append:
  assumes "log_fits B d" and "B + length s \<le> B'" and "B' < 2048"
  shows "log_fits B' (log_append s d)"
proof -
  from assms(1) have p: "unat (log_pos d) \<le> B"
    and buf: "debug_log (dapp d) = concat (map snd (calls d))"
    and len: "length (debug_log (dapp d)) = unat (log_pos d)"
    and cs: "list_all (\<lambda>(off, s). unat off + length s \<le> B) (calls d)"
    unfolding log_fits_def by blast+
  from assms(2,3) have l: "length s < 2048" by simp
  have s32: "unat (of_nat (length s) :: u32) = length s"
    using l by (simp add: unat_of_nat)
  have "unat (log_pos d) + unat (of_nat (length s) :: u32) < 2 ^ 32"
    using p l assms(2,3) by (simp add: s32)
  then have pos: "unat (log_pos d + of_nat (length s)) = unat (log_pos d) + length s"
    by (simp add: unat_add_lem [THEN iffD1] s32 del: of_nat_add)
  have le: "log_pos d \<le> 2048"
    using p assms(2,3) by (simp add: word_le_nat_alt)
  then have sz: "unat (2048 - log_pos d) = 2048 - unat (log_pos d)"
    by (simp add: unat_sub)
  have nz: "2048 - log_pos d \<noteq> 0"
    using sz p assms(2,3) by (metis add_leD1 diff_is_0_eq not_less order_trans unat_0 unat_eq_zero)
  have room: "length s \<le> 2048 - unat (log_pos d) - 1"
    using p assms(2,3) by simp
  have w: "snprintf_at (debug_log (dapp d)) (log_pos d) (2048 - log_pos d) s
      = debug_log (dapp d) @ s"
    using nz len room by (simp add: snprintf_at_def sz)
  have a1: "debug_log (dapp (log_append s d)) = debug_log (dapp d) @ s"
    using w by (simp add: log_append_def)
  have c1: "unat (log_pos (log_append s d)) \<le> B'"
    using p assms(2) pos by simp
  have c2: "debug_log (dapp (log_append s d)) = concat (map snd (calls (log_append s d)))"
    using buf by (simp add: a1)
  have c3: "length (debug_log (dapp (log_append s d))) = unat (log_pos (log_append s d))"
    using len pos by (simp add: a1)
  have "list_all (\<lambda>(off, s). unat off + length s \<le> B') (calls d)"
    using cs assms(2) by (auto simp add: list_all_iff)
  then have c4: "list_all (\<lambda>(off, s). unat off + length s \<le> B') (calls (log_append s d))"
    using p assms(2) by simp
  from c1 c2 c3 c4 show ?thesis
    unfolding log_fits_def by blast
qed

lemma log_fits_grow:
  "log_fits B d \<Longrightarrow> B + length s < 2048 \<Longrightarrow> log_fits (B + length s) (log_append s d)"
  by (rule log_fits_append [of B d s]) simp_all

lemma log_fits_start: "log_fits 0 \<lparr>dapp = app\<lparr>debug_log := []\<rparr>, log_pos = 0, calls = []\<rparr>"
  by (simp add: log_fits_def)

lemma log_fits_dapp:
  "log_fits B d \<Longrightarrow> debug_log a = debug_log (dapp d) \<Longrightarrow> log_fits B (d\<lparr>dapp := a\<rparr>)"
  unfolding log_fits_def by (elim conjE, intro conjI) simp_all

lemma debug_start_fits: "log_fits 240 (fst (debug_start app h))"
proof -
  have "\<exists>K. log_fits K (fst (debug_start app h)) \<and> K \<le> 240"
    apply (simp add: debug_start_def Let_def furi_hal_gpio_read_def split del: if_split)
    apply (intro exI conjI)
     apply (rule log_fits_grow)+
             apply (rule log_fits_start)
            apply (simp_all add: temp_msg_def)
    done
  then show ?thesis using log_fits_mono by blast
qed

lemma dec_length_timeout: "t \<le> 200 \<Longrightarrow> length (dec t) \<le> 3"
  by (rule dec_length) simp_all

lemma debug_handshake_fits:
  assumes "log_fits B d" and "B + 110 < 2048"
  shows "log_fits (B + 110) (fst (snd (debug_handshake d h)))"
proof -
  obtain t1 h1 where w1: "wait_while True 0 h = (t1, h1)"
    by (cases "wait_while True 0 h")
  obtain t2 h2 where w2: "wait_while False 0 h1 = (t2, h2)"
    by (cases "wait_while False 0 h1")
  obtain t3 h3 where w3: "wait_while True 0 h2 = (t3, h3)"
    by (cases "wait_while True 0 h2")
  from w1 w2 w3 have l: "length (dec t1) \<le> 3" "length (dec t2) \<le> 3" "length (dec t3) \<le> 3"
    using wait_while_bound [of _ 0] by (auto intro!: dec_length_timeout)
  have "\<exists>K. log_fits K (fst (snd (debug_handshake d h))) \<and> K \<le> B + 110"
  proof (cases "200 \<le> t1")
    case True
    with w1 l assms show ?thesis
      apply (simp add: debug_handshake_def Let_def)
      apply (intro exI conjI)
       apply (rule log_fits_grow)+
          apply assumption
         apply (simp_all add: temp_msg_def)
      done
  next
    case n1: False
    show ?thesis
    proof (cases "200 \<le> t2")
      case True
      with n1 w1 w2 l assms show ?thesis
        apply (simp add: debug_handshake_def Let_def)
        apply (intro exI conjI)
         apply (rule log_fits_grow)+
            apply assumption
           apply (simp_all add: temp_msg_def)
        done
    next
      case n2: False
      show ?thesis
      proof (cases "200 \<le> t3")
        case True
        with n1 n2 w1 w2 w3 l assms show ?thesis
          apply (simp add: debug_handshake_def Let_def)
          apply (intro exI conjI)
           apply (rule log_fits_grow)+
               apply assumption
              apply (simp_all add: temp_msg_def)
          done
      next
        case False
        with n1 n2 w1 w2 w3 l assms show ?thesis
          apply (simp add: debug_handshake_def Let_def)
          apply (intro exI conjI)
           apply (rule log_fits_grow)+
               apply assumption
              apply (simp_all add: temp_msg_def)
          done
      qed
    qed
  qed
  then show ?thesis using log_fits_mono by blast
qed

lemma length_bit_entry: "i < 40 \<Longrightarrow> length (bit_entry i p) \<le> 33"
  using dec_length_bit_index [of i] dec_length_u32 [of p]
  by (simp add: bit_entry_text)

lemma length_bit_timeout: "i < 40 \<Longrightarrow> length (error_entry (BitTimeout i)) \<le> 33"
  using dec_length_bit_index [of i] by (simp add: temp_msg_def)

lemma log_bit_fits:
  assumes "log_fits B d" and "i < 40" and "B + 33 < 2048"
  shows "log_fits (B + 33) (log_bit i p d)"
proof (cases "logged i")
  case True
  then have "log_bit i p d = log_append (bit_entry i p) d"
    by (auto simp add: log_bit_def logged_def)
  with assms length_bit_entry [of i p] show ?thesis
    by (auto intro: log_fits_append)
next
  case False
  then have "log_bit i p d = d"
    by (simp add: log_bit_def logged_def)
  with assms(1) show ?thesis by (simp add: log_fits_mono)
qed

lemma debug_read_bits_fits:
  "debug_read_bits i n data d h = Some (r, d', h') \<Longrightarrow> log_fits B d \<Longrightarrow>
   B + 33 * (40 - i) < 2048 \<Longrightarrow> log_fits (B + 33 * (40 - i)) d'"
proof (induction i n data d h arbitrary: B rule: debug_read_bits.induct)
  case (1 i n data d h)
  show ?case
  proof (cases "i < 40")
    case False
    with "1.prems" show ?thesis
      by (simp add: debug_read_bits_done log_fits_mono)
  next
    case True
    obtain t h1 where w: "wait_while False 0 h = (t, h1)"
      by (cases "wait_while False 0 h")
    show ?thesis
    proof (cases "200 \<le> t")
      case True
      with \<open>i < 40\<close> w "1.prems"(1)
      have d': "d' = log_append (error_entry (BitTimeout i)) d"
        by (auto simp add: debug_read_bits_timeout)
      from \<open>i < 40\<close> have "B + length (error_entry (BitTimeout i)) \<le> B + 33 * (40 - i)"
        using length_bit_timeout [of i] by simp
      with "1.prems"(2) show ?thesis
        unfolding d' using "1.prems"(3) by (rule log_fits_append)
    next
      case False
      have "measure_pulse h1 \<noteq> None"
      proof
        assume "measure_pulse h1 = None"
        with \<open>i < 40\<close> w False "1.prems"(1) show False
          by (simp add: debug_read_bits_diverge)
      qed
      then obtain p h2 where m: "measure_pulse h1 = Some (p, h2)"
        by (cases "measure_pulse h1") auto
      from \<open>i < 40\<close> w False m "1.prems"(1)
      have nb: "debug_read_bits (Suc i) (Suc n) (store_bit i p data) (log_bit i p d) h2
          = Some (r, d', h')"
        by (simp add: debug_read_bits_step)
      from \<open>i < 40\<close> have k: "B + 33 * (40 - i) = (B + 33) + 33 * (40 - Suc i)"
        by simp
      from "1.prems"(2,3) \<open>i < 40\<close> have fits: "log_fits (B + 33) (log_bit i p d)"
        by (intro log_bit_fits) simp_all
      from "1.prems"(3) k have room: "(B + 33) + 33 * (40 - Suc i) < 2048"
        by simp
      from "1.IH" [OF \<open>i < 40\<close> w [symmetric] False m refl nb fits room]
      show ?thesis by (simp only: k)
    qed
  qed
qed

lemma length_hex2 [simp]: "length (hex2 b) = 2"
  by (simp add: hex2_def)

lemma length_fixed1_byte: "length (fixed1 (uint (b :: u8))) \<le> 5"
proof -
  have "unat b < 2 ^ 8" using unsigned_less [of b] by simp
  then have "nat \<bar>uint b\<bar> < 10 ^ 3" by simp
  then have "length (dec (nat \<bar>uint b\<bar>)) \<le> 3" by (rule dec_length) simp
  then show ?thesis by (simp add: fixed1_def)
qed

lemma debug_validate_fits:
  assumes "log_fits B d" and "B + 348 < 2048"
  shows "log_fits (B + 348) (snd (debug_validate 40 data d))"
proof -
  have l: "length (dec 40) \<le> 2" by (rule dec_length) simp_all
  note f = length_fixed1_byte [of "data ! 0"] length_fixed1_byte [of "data ! 2"]
  have "\<exists>K. log_fits K (snd (debug_validate 40 data d)) \<and> K \<le> B + 348"
  proof (cases "data ! 0 + data ! 1 + data ! 2 + data ! 3 = data ! 4")
    case False
    with l assms show ?thesis
      apply (simp add: debug_validate_def Let_def)
      apply (intro exI conjI)
       apply (rule log_fits_grow)+
                 apply assumption
                apply (simp_all add: temp_msg_def)
      done
  next
    case True
    with l f assms show ?thesis
      apply (simp add: debug_validate_def Let_def)
      apply (intro conjI impI)
      subgoal
        apply (intro exI conjI)
         apply (rule log_fits_grow log_fits_dapp)+
                       apply assumption
                      apply (simp_all add: temp_msg_def log_append_def)
        done
      subgoal
        apply (intro exI conjI)
         apply (rule log_fits_grow log_fits_dapp)+
                       apply assumption
                      apply (simp_all add: temp_msg_def log_append_def)
        done
      done
  qed
  then show ?thesis using log_fits_mono by blast
qed

lemma debug_receive_fits:
  assumes "debug_receive app h = Some (r, d, h')"
  shows "log_fits 1670 d"
proof -
  obtain d0 h0 where s: "debug_start app h = (d0, h0)"
    by (cases "debug_start app h")
  with debug_start_fits [of app h] have f0: "log_fits 240 d0" by simp
  obtain r1 d1 h1 where hs: "debug_handshake d0 h0 = (r1, d1, h1)"
    by (cases "debug_handshake d0 h0")
  with debug_handshake_fits [OF f0, of h0] have f1: "log_fits 350 d1" by simp
  show ?thesis
  proof (cases r1)
    case (Inl e)
    with assms s hs have "d = d1" by (simp add: debug_receive_def)
    with f1 show ?thesis by (simp add: log_fits_mono)
  next
    case (Inr u)
    with assms s hs have "debug_read_bits 0 0 [0, 0, 0, 0, 0] d1 h1 = Some (r, d, h')"
      by (simp add: debug_receive_def)
    from debug_read_bits_fits [OF this f1] show ?thesis by simp
  qed
qed

lemma debug_receive_count:
  "debug_receive app h = Some (Inr (n, data), d, h') \<Longrightarrow> n = 40"
  using debug_receive_frame [of app h n data d h'] debug_read_bits_log [of 0 0]
  by fastforce

lemma debug_read_exit_cases:
  assumes "dht11_sensor_debug_read_exit app h = Some (r, d, h')"
  shows "(\<exists>e. r = Inl e \<and> debug_receive app h = Some (Inl e, d, h'))
       \<or> (\<exists>data d2. debug_receive app h = Some (Inr (40, data), d2, h')
             \<and> debug_validate 40 data d2 = (r, d))"
proof (cases "debug_receive app h")
  case None
  with assms show ?thesis by (simp add: dht11_sensor_debug_read_exit_def)
next
  case (Some x)
  obtain r2 d2 h2 where x: "x = (r2, d2, h2)" by (cases x)
  show ?thesis
  proof (cases r2)
    case (Inl e)
    with assms Some x show ?thesis
      by (simp add: dht11_sensor_debug_read_exit_def)
  next
    case (Inr nd)
    obtain n data where nd: "nd = (n, data)" by (cases nd)
    with Some x Inr have "n = 40" using debug_receive_count by blast
    with assms Some x Inr nd show ?thesis
      by (auto simp add: dht11_sensor_debug_read_exit_def split: prod.splits)
  qed
qed

lemma debug_read_exit_fits:
  assumes "dht11_sensor_debug_read_exit app h = Some (r, d, h')"
  shows "log_fits 2018 d"
  using debug_read_exit_cases [OF assms]
proof (elim disjE exE conjE)
  fix e
  assume "debug_receive app h = Some (Inl e, d, h')"
  then have "log_fits 1670 d" by (rule debug_receive_fits)
  then show ?thesis by (simp add: log_fits_mono)
next
  fix data d2
  assume "debug_receive app h = Some (Inr (40, data), d2, h')"
    and v: "debug_validate 40 data d2 = (r, d)"
  then have "log_fits 1670 d2" using debug_receive_fits by blast
  from debug_validate_fits [OF this, of data] v show ?thesis by simp
qed

lemma log_append_truncates:
  assumes "unat (log_pos d) \<le> 2048" and "length (debug_log (dapp d)) < 2048"
  shows "length (debug_log (dapp (log_append s d))) < 2048"
proof -
  from assms(1) have "log_pos d \<le> 2048"
    by (simp add: word_le_nat_alt)
  then have sz: "unat (2048 - log_pos d) = 2048 - unat (log_pos d)"
    by (simp add: unat_sub)
  show ?thesis
  proof (cases "2048 - log_pos d = 0")
    case True
    with assms(2) show ?thesis by (simp add: log_append_def snprintf_at_def)
  next
    case False
    then have "unat (2048 - log_pos d) \<noteq> 0"
      by (simp add: unat_eq_zero)
    with sz have "unat (log_pos d) < 2048" by simp
    with False sz assms(2) show ?thesis
      by (auto simp add: log_append_def snprintf_at_def)
  qed
qed

text \<open>
  C9. The log stays within its buffer. Whatever the pin and the counter do, when a debug
  read returns, every call of the formatter on the log got an offset at which its whole
  text and the terminator ended within the 2048 bytes, so the offset never exceeded
  the capacity, and the buffer holds every text in full. The append itself cuts a text
  that does not fit: from an offset of at most 2048 the log it leaves is shorter than
  2048 characters whatever the text is.
\<close>

theorem trace_within_buffer:
  "(dht11_sensor_debug_read_exit app h = Some (r, d, h') \<longrightarrow>
      (\<forall>(off, s) \<in> set (calls d). unat off \<le> 2048 \<and> unat off + length s < 2048)
      \<and> unat (log_pos d) < 2048
      \<and> debug_log (dapp d) = concat (map snd (calls d)))
   \<and> (unat (log_pos d0) \<le> 2048 \<and> length (debug_log (dapp d0)) < 2048 \<longrightarrow>
      length (debug_log (dapp (log_append s0 d0))) < 2048)"
proof (intro conjI impI)
  assume "dht11_sensor_debug_read_exit app h = Some (r, d, h')"
  then have f: "log_fits 2018 d" by (rule debug_read_exit_fits)
  then show "\<forall>(off, s) \<in> set (calls d). unat off \<le> 2048 \<and> unat off + length s < 2048"
    by (fastforce simp add: log_fits_def list_all_iff)
  from f show "unat (log_pos d) < 2048"
    by (simp add: log_fits_def)
  from f show "debug_log (dapp d) = concat (map snd (calls d))"
    by (simp add: log_fits_def)
next
  assume "unat (log_pos d0) \<le> 2048 \<and> length (debug_log (dapp d0)) < 2048"
  then show "length (debug_log (dapp (log_append s0 d0))) < 2048"
    using log_append_truncates by blast
qed

section \<open>From the reception to the exit\<close>

lemma read_exit_received:
  "receive h = Some (Inr data, h2) \<Longrightarrow>
     dht11_sensor_read_exit app h
       = Some (fst (validate data app), snd (validate data app), h2)"
  by (simp add: dht11_sensor_read_exit_def split: prod.splits)


lemma debug_read_exit_received:
  "debug_receive app h = Some (Inr (n, data), d2, h2) \<Longrightarrow>
     dht11_sensor_debug_read_exit app h
       = Some (fst (debug_validate n data d2), snd (debug_validate n data d2), h2)"
  by (simp add: dht11_sensor_debug_read_exit_def split: prod.splits)


lemma debug_validate_calls: "calls (snd (debug_validate n data d)) \<noteq> []"
  by (simp add: debug_validate_def Let_def)

theorem trace_within_buffer_witness:
  "\<exists>r d h'.
     dht11_sensor_debug_read_exit app0 (sensor_debug [0x32, 0, 0x18, 0, 0x4A]) = Some (r, d, h')
   \<and> calls d \<noteq> []
   \<and> (\<forall>(off, s) \<in> set (calls d). unat off \<le> 2048 \<and> unat off + length s < 2048)
   \<and> debug_log (dapp d) = concat (map snd (calls d))
   \<and> length (debug_log (dapp (log_append (replicate 3000 (CHR ''x'')) dstate0))) < 2048"
proof -
  obtain n d2 h' where "debug_receive app0 (sensor_debug [0x32, 0, 0x18, 0, 0x4A])
      = Some (Inr (n, [0x32, 0, 0x18, 0, 0x4A]), d2, h')"
    using sensor_debug_run by blast
  then have e: "dht11_sensor_debug_read_exit app0 (sensor_debug [0x32, 0, 0x18, 0, 0x4A])
      = Some (fst (debug_validate n [0x32, 0, 0x18, 0, 0x4A] d2),
              snd (debug_validate n [0x32, 0, 0x18, 0, 0x4A] d2), h')"
    by (rule debug_read_exit_received)
  have z: "unat (log_pos dstate0) \<le> 2048 \<and> length (debug_log (dapp dstate0)) < 2048"
    by (simp add: dstate0_def app0_def)
  from e z debug_validate_calls [of n "[0x32, 0, 0x18, 0, 0x4A]" d2]
    trace_within_buffer [of app0 "sensor_debug [0x32, 0, 0x18, 0, 0x4A]"
      "fst (debug_validate n [0x32, 0, 0x18, 0, 0x4A] d2)"
      "snd (debug_validate n [0x32, 0, 0x18, 0, 0x4A] d2)" h' dstate0
      "replicate 3000 (CHR ''x'')"]
  show ?thesis by blast
qed

section \<open>Failures\<close>






lemma read_exit_cases:
  assumes "dht11_sensor_read_exit app h = Some (r, app', h')"
  shows "(\<exists>e. r = Inl e \<and> app' = app \<and> receive h = Some (Inl e, h'))
       \<or> (\<exists>data. receive h = Some (Inr data, h') \<and> validate data app = (r, app'))"
proof (cases "receive h")
  case None
  with assms show ?thesis by (simp add: dht11_sensor_read_exit_def)
next
  case (Some x)
  obtain r2 h2 where x: "x = (r2, h2)" by (cases x)
  with assms Some show ?thesis
    by (cases r2) (auto simp add: dht11_sensor_read_exit_def split: prod.splits)
qed







section \<open>The reading after a failed read\<close>

lemma failed_read_keeps_reading:
  assumes "dht11_sensor_read_exit app h = Some (Inl e, app', h')" and "e \<noteq> OutOfRange"
  shows "app' = app"
proof -
  from read_exit_cases [OF assms(1)]
  show ?thesis
  proof (elim disjE exE conjE)
    fix data
    assume v: "validate data app = (Inl e, app')"
    show ?thesis
    proof (cases "data ! 0 + data ! 1 + data ! 2 + data ! 3 = data ! 4")
      case True
      with v assms(2) show ?thesis
        by (auto simp add: validate_checksum_ok Let_def split: if_splits)
    next
      case False
      with v show ?thesis by (simp add: validate_checksum_fail)
    qed
  qed simp
qed

lemma sensor_plain_run_101:
  "\<exists>h'. receive (sensor_plain [0x65, 0, 0x18, 0, 0x7D]) = Some (Inr [0x65, 0, 0x18, 0, 0x7D], h')"
proof -
  have "map_option fst (receive (sensor_plain [0x65, 0, 0x18, 0, 0x7D]))
      = Some (Inr [0x65, 0, 0x18, 0, 0x7D])"
    by code_simp
  then show ?thesis by auto
qed

lemma debug_start_reading:
  "temperature (dapp (fst (debug_start app h))) = temperature app
   \<and> humidity (dapp (fst (debug_start app h))) = humidity app"
  by (simp add: debug_start_def Let_def split: prod.splits)

lemma debug_handshake_reading:
  "debug_handshake d h = (r, d', h') \<Longrightarrow>
     temperature (dapp d') = temperature (dapp d) \<and> humidity (dapp d') = humidity (dapp d)"
  by (auto simp add: debug_handshake_def Let_def split: prod.splits if_splits)

lemma log_bit_reading [simp]:
  "temperature (dapp (log_bit i p d)) = temperature (dapp d)"
  "humidity (dapp (log_bit i p d)) = humidity (dapp d)"
  by (simp_all add: log_bit_def)

lemma debug_read_bits_reading:
  "debug_read_bits i n data d h = Some (r, d', h') \<Longrightarrow>
     temperature (dapp d') = temperature (dapp d) \<and> humidity (dapp d') = humidity (dapp d)"
proof (induction i n data d h rule: debug_read_bits.induct)
  case (1 i n data d h)
  show ?case
  proof (cases "i < 40")
    case False
    with "1.prems" show ?thesis by (simp add: debug_read_bits_done)
  next
    case True
    obtain t h1 where w: "wait_while False 0 h = (t, h1)"
      by (cases "wait_while False 0 h")
    show ?thesis
    proof (cases "200 \<le> t")
      case True
      with \<open>i < 40\<close> w "1.prems" show ?thesis
        by (auto simp add: debug_read_bits_timeout)
    next
      case False
      have "measure_pulse h1 \<noteq> None"
      proof
        assume "measure_pulse h1 = None"
        with \<open>i < 40\<close> w False "1.prems" show False
          by (simp add: debug_read_bits_diverge)
      qed
      then obtain p h2 where m: "measure_pulse h1 = Some (p, h2)"
        by (cases "measure_pulse h1") auto
      from \<open>i < 40\<close> w False m "1.prems"
      have "debug_read_bits (Suc i) (Suc n) (store_bit i p data) (log_bit i p d) h2
          = Some (r, d', h')"
        by (simp add: debug_read_bits_step)
      from "1.IH" [OF \<open>i < 40\<close> w [symmetric] False m refl this]
      show ?thesis by simp
    qed
  qed
qed

lemma debug_receive_reading:
  assumes "debug_receive app h = Some (r, d, h')"
  shows "temperature (dapp d) = temperature app \<and> humidity (dapp d) = humidity app"
proof -
  obtain d0 h0 where s: "debug_start app h = (d0, h0)"
    by (cases "debug_start app h")
  with debug_start_reading [of app h]
  have r0: "temperature (dapp d0) = temperature app \<and> humidity (dapp d0) = humidity app"
    by simp
  obtain r1 d1 h1 where hs: "debug_handshake d0 h0 = (r1, d1, h1)"
    by (cases "debug_handshake d0 h0")
  from debug_handshake_reading [OF hs] r0
  have r1: "temperature (dapp d1) = temperature app \<and> humidity (dapp d1) = humidity app"
    by simp
  show ?thesis
  proof (cases r1)
    case (Inl e)
    with assms s hs have "d = d1" by (simp add: debug_receive_def)
    with r1 show ?thesis by simp
  next
    case (Inr u)
    with assms s hs have "debug_read_bits 0 0 [0, 0, 0, 0, 0] d1 h1 = Some (r, d, h')"
      by (simp add: debug_receive_def)
    from debug_read_bits_reading [OF this] r1 show ?thesis by simp
  qed
qed

lemma failed_debug_read_keeps_reading:
  assumes "dht11_sensor_debug_read_exit app h = Some (Inl e, d, h')" and "e \<noteq> OutOfRange"
  shows "temperature (dapp d) = temperature app \<and> humidity (dapp d) = humidity app"
proof -
  from debug_read_exit_cases [OF assms(1)]
  have "debug_receive app h = Some (Inl e, d, h')
      \<or> (\<exists>data d2. debug_receive app h = Some (Inr (40, data), d2, h')
            \<and> debug_validate 40 data d2 = (Inl e, d))"
    by auto
  then show ?thesis
  proof (elim disjE exE conjE)
    assume "debug_receive app h = Some (Inl e, d, h')"
    then show ?thesis by (rule debug_receive_reading)
  next
    fix data d2
    assume r: "debug_receive app h = Some (Inr (40, data), d2, h')"
      and v: "debug_validate 40 data d2 = (Inl e, d)"
    have c: "data ! 0 + data ! 1 + data ! 2 + data ! 3 \<noteq> data ! 4"
    proof
      assume "data ! 0 + data ! 1 + data ! 2 + data ! 3 = data ! 4"
      from debug_validate_checksum_ok [OF this, of 40 d2] v assms(2) show False
        by (auto split: if_splits)
    qed
    from debug_validate_checksum_fail [OF c, of 40 d2] v debug_receive_reading [OF r]
    show ?thesis by simp
  qed
qed

lemma sensor_debug_run_101:
  "\<exists>d h'. debug_receive app0 (sensor_debug [0x65, 0, 0x18, 0, 0x7D])
     = Some (Inr (40, [0x65, 0, 0x18, 0, 0x7D]), d, h')"
proof -
  have "map_option fst (receive (snd (furi_hal_gpio_read (sensor_debug [0x65, 0, 0x18, 0, 0x7D]))))
      = Some (Inr [0x65, 0, 0x18, 0, 0x7D])"
    by code_simp
  then have "map_option fst (map_option (\<lambda>(r, d, h'). (map_sum id snd r, h'))
      (debug_receive app0 (sensor_debug [0x65, 0, 0x18, 0, 0x7D])))
      = Some (Inr [0x65, 0, 0x18, 0, 0x7D])"
    by (simp only: debug_receive_flow)
  then obtain r d h' where
    r: "debug_receive app0 (sensor_debug [0x65, 0, 0x18, 0, 0x7D]) = Some (r, d, h')"
    and "map_sum id snd r = Inr [0x65, 0, 0x18, 0, 0x7D]"
    by auto
  then obtain n where "r = Inr (n, [0x65, 0, 0x18, 0, 0x7D])"
    by (cases r) auto
  with r debug_receive_count [of app0 _ n _ d h'] show ?thesis
    by auto
qed

text \<open>
  C7. A failed read and the stored reading. The failures of the reception and of the
  checksum leave temperature and humidity as they were. The range check comes after
  the assignment of the fields: a sensor that sends the frame 65 00 18 00 7D (humidity
  101, temperature 24, checksum right) makes either read return false, and the
  application structure, which held temperature 0 and humidity 0 before the call,
  holds temperature 24 and humidity 101 afterwards.
\<close>

theorem rejected_frame_overwrites_reading:
  "map_option (\<lambda>(b, a, h). (b, temperature a, humidity a))
       (dht11_sensor_read app0 (sensor_plain [0x65, 0, 0x18, 0, 0x7D]))
     = Some (False, 24, 101)
   \<and> map_option (\<lambda>(b, a, h). (b, temperature a, humidity a))
       (dht11_sensor_debug_read app0 (sensor_debug [0x65, 0, 0x18, 0, 0x7D]))
     = Some (False, 24, 101)
   \<and> temperature app0 = 0 \<and> humidity app0 = 0"
proof (intro conjI)
  obtain h' where "receive (sensor_plain [0x65, 0, 0x18, 0, 0x7D])
      = Some (Inr [0x65, 0, 0x18, 0, 0x7D], h')"
    using sensor_plain_run_101 by blast
  from read_exit_received [OF this, of app0]
  show "map_option (\<lambda>(b, a, h). (b, temperature a, humidity a))
       (dht11_sensor_read app0 (sensor_plain [0x65, 0, 0x18, 0, 0x7D]))
     = Some (False, 24, 101)"
    by (simp add: dht11_sensor_read_def validate_checksum_ok out_of_range_def returned_def)
next
  obtain d h' where "debug_receive app0 (sensor_debug [0x65, 0, 0x18, 0, 0x7D])
     = Some (Inr (40, [0x65, 0, 0x18, 0, 0x7D]), d, h')"
    using sensor_debug_run_101 by blast
  from debug_read_exit_received [OF this]
  show "map_option (\<lambda>(b, a, h). (b, temperature a, humidity a))
       (dht11_sensor_debug_read app0 (sensor_debug [0x65, 0, 0x18, 0, 0x7D]))
     = Some (False, 24, 101)"
    by (simp add: dht11_sensor_debug_read_def debug_validate_checksum_ok out_of_range_def
          returned_def)
qed (simp_all add: app0_def)

section \<open>The cutoff of the measurement loop\<close>

lemma measure_loop_cutoff:
  "\<forall>k\<le>n. pin_level h (pin_reads h + k) \<Longrightarrow>
   \<forall>k<n. \<not> 200 < (cyccnt h (cyc_reads h + k) - start_cycles) div 64 \<Longrightarrow>
   200 < (cyccnt h (cyc_reads h + n) - start_cycles) div 64 \<Longrightarrow>
     measure_loop start_cycles h
       = Some (h\<lparr>pin_reads := pin_reads h + Suc n, cyc_reads := cyc_reads h + Suc n\<rparr>)"
proof (induction n arbitrary: h)
  case 0
  then show ?case
    by (subst measure_loop.simps) (simp add: furi_hal_gpio_read_def read_CYCCNT_def)
next
  case (Suc n)
  let ?h = "h\<lparr>pin_reads := Suc (pin_reads h), cyc_reads := Suc (cyc_reads h)\<rparr>"
  from Suc.prems(1) have p0: "pin_level h (pin_reads h)"
    by (metis add.right_neutral le0)
  from Suc.prems(2) have c0: "\<not> 200 < (cyccnt h (cyc_reads h) - start_cycles) div 64"
    by (metis add.right_neutral zero_less_Suc)
  from p0 c0 have step: "measure_loop start_cycles h = measure_loop start_cycles ?h"
    by (subst measure_loop.simps) (simp add: furi_hal_gpio_read_def read_CYCCNT_def)
  have "\<forall>k\<le>n. pin_level ?h (pin_reads ?h + k)"
    using Suc.prems(1) by (auto simp add: Suc_le_eq dest: spec [of _ "Suc _"])
  moreover have "\<forall>k<n. \<not> 200 < (cyccnt ?h (cyc_reads ?h + k) - start_cycles) div 64"
    using Suc.prems(2) by (auto dest: spec [of _ "Suc _"])
  moreover have "200 < (cyccnt ?h (cyc_reads ?h + n) - start_cycles) div 64"
    using Suc.prems(3) by simp
  ultimately have "measure_loop start_cycles ?h
      = Some (?h\<lparr>pin_reads := pin_reads ?h + Suc n, cyc_reads := cyc_reads ?h + Suc n\<rparr>)"
    by (rule Suc.IH)
  with step show ?case by simp
qed

lemma read_bits_failure:
  assumes "read_bits i data h = Some (Inl e, h')"
  shows "\<exists>k. e = BitTimeout k \<and> i \<le> k \<and> k < 40"
proof -
  from assms debug_read_bits_flow [of i 0 data dstate0 h]
  obtain r d' where "debug_read_bits i 0 data dstate0 h = Some (r, d', h')"
    and "map_sum id snd r = Inl e"
    by auto
  then have "debug_read_bits i 0 data dstate0 h = Some (Inl e, d', h')"
    by (cases r) auto
  from debug_read_bits_failure [OF this] show ?thesis by blast
qed

lemma div64_mono: "a \<le> b \<Longrightarrow> unat (a div 64) \<le> unat (b div 64)" for a b :: u32
  by (simp add: unat_div word_le_nat_alt div_le_mono)

text \<open>
  C10. The cutoff of the measurement. Bit \<open>i\<close> has started in time; the line then
  reads high at every test of the measurement loop, the elapsed time computed in the
  loop is at most 200 microseconds in the first \<open>n\<close> passes and above 200 in the next
  one, and the counter has not gone back when it is read once more after the loop.
  Then the measurement returns after these \<open>n + 1\<close> polls with a duration above 200,
  so above the threshold of 40: both data loops set position \<open>i\<close> of the frame and go
  on with bit \<open>i + 1\<close>, and neither reports a timeout for bit \<open>i\<close>.
\<close>

theorem cutoff_reads_as_one:
  assumes "i < 40" and "wait_while False 0 h0 = (t, h)" and "t < 200"
    and high: "\<forall>k\<le>n. pin_level h (pin_reads h + k)"
    and below: "\<forall>k<n. (cyccnt h (Suc (cyc_reads h) + k) - cyccnt h (cyc_reads h)) div 64 \<le> 200"
    and above: "200 < (cyccnt h (Suc (cyc_reads h) + n) - cyccnt h (cyc_reads h)) div 64"
    and counting: "cyccnt h (Suc (cyc_reads h) + n) - cyccnt h (cyc_reads h)
                     \<le> cyccnt h (Suc (Suc (cyc_reads h)) + n) - cyccnt h (cyc_reads h)"
  shows "\<exists>d h2. measure_pulse h = Some (d, h2)
       \<and> pin_reads h2 = pin_reads h + Suc n
       \<and> 200 < unat d
       \<and> read_bits i data h0 = read_bits (Suc i) (set_data_bit i data) h2
       \<and> debug_read_bits i m data dd h0
           = debug_read_bits (Suc i) (Suc m) (set_data_bit i data) (log_bit i d dd) h2
       \<and> (\<forall>h'. read_bits i data h0 \<noteq> Some (Inl (BitTimeout i), h'))
       \<and> (\<forall>d' h'. debug_read_bits i m data dd h0 \<noteq> Some (Inl (BitTimeout i), d', h'))"
proof -
  let ?start = "cyccnt h (cyc_reads h)"
  let ?h1 = "h\<lparr>cyc_reads := Suc (cyc_reads h)\<rparr>"
  let ?h2 = "?h1\<lparr>pin_reads := pin_reads ?h1 + Suc n, cyc_reads := cyc_reads ?h1 + Suc n\<rparr>"
  let ?h3 = "?h2\<lparr>cyc_reads := Suc (cyc_reads ?h2)\<rparr>"
  let ?d = "(cyccnt h (Suc (Suc (cyc_reads h)) + n) - ?start) div 64"
  have "\<forall>k\<le>n. pin_level ?h1 (pin_reads ?h1 + k)"
    using high by simp
  moreover have "\<forall>k<n. \<not> 200 < (cyccnt ?h1 (cyc_reads ?h1 + k) - ?start) div 64"
    using below by (simp add: not_less)
  moreover have "200 < (cyccnt ?h1 (cyc_reads ?h1 + n) - ?start) div 64"
    using above by simp
  ultimately have loop: "measure_loop ?start ?h1 = Some ?h2"
    by (rule measure_loop_cutoff)
  then have m: "measure_pulse h = Some (?d, ?h3)"
    by (simp add: measure_pulse_def read_CYCCNT_def)
  from above have "200 < unat ((cyccnt h (Suc (cyc_reads h) + n) - ?start) div 64)"
    by (simp add: word_less_nat_alt)
  with div64_mono [OF counting] have long: "200 < unat ?d"
    by simp
  then have v: "bit_value ?d"
    by (simp add: bit_value_def word_less_nat_alt)
  from assms(1-3) m v
  have p: "read_bits i data h0 = read_bits (Suc i) (set_data_bit i data) ?h3"
    by (simp add: read_bits_step store_bit_def)
  from assms(1-3) m v
  have q: "debug_read_bits i m data dd h0
      = debug_read_bits (Suc i) (Suc m) (set_data_bit i data) (log_bit i ?d dd) ?h3"
    by (simp add: debug_read_bits_step store_bit_def)
  have np: "\<forall>h'. read_bits i data h0 \<noteq> Some (Inl (BitTimeout i), h')"
  proof (intro allI notI)
    fix h'
    assume "read_bits i data h0 = Some (Inl (BitTimeout i), h')"
    with p have "read_bits (Suc i) (set_data_bit i data) ?h3 = Some (Inl (BitTimeout i), h')"
      by simp
    from read_bits_failure [OF this] show False by simp
  qed
  have nq: "\<forall>d' h'. debug_read_bits i m data dd h0 \<noteq> Some (Inl (BitTimeout i), d', h')"
  proof (intro allI notI)
    fix d' h'
    assume "debug_read_bits i m data dd h0 = Some (Inl (BitTimeout i), d', h')"
    with q have "debug_read_bits (Suc i) (Suc m) (set_data_bit i data) (log_bit i ?d dd) ?h3
        = Some (Inl (BitTimeout i), d', h')"
      by simp
    from debug_read_bits_failure [OF this] show False by simp
  qed
  have "pin_reads ?h3 = pin_reads h + Suc n" by simp
  with m long p q np nq show ?thesis by blast
qed

lemma stuck_high_wait:
  "wait_while False 0 stuck_high = (0, stuck_high\<lparr>pin_reads := 1\<rparr>)"
  by (subst wait_while.simps) (simp add: furi_hal_gpio_read_def stuck_high_def)

theorem cutoff_reads_as_one_witness:
  "\<exists>d h2. measure_pulse (stuck_high\<lparr>pin_reads := 1\<rparr>) = Some (d, h2)
     \<and> pin_reads h2 = 3
     \<and> 200 < unat d
     \<and> read_bits 0 [0, 0, 0, 0, 0] stuck_high = read_bits 1 (set_data_bit 0 [0, 0, 0, 0, 0]) h2
     \<and> debug_read_bits 0 0 [0, 0, 0, 0, 0] dstate0 stuck_high
         = debug_read_bits 1 1 (set_data_bit 0 [0, 0, 0, 0, 0]) (log_bit 0 d dstate0) h2
     \<and> (\<forall>h'. read_bits 0 [0, 0, 0, 0, 0] stuck_high \<noteq> Some (Inl (BitTimeout 0), h'))"
proof -
  have high: "\<forall>k\<le>1. pin_level (stuck_high\<lparr>pin_reads := 1\<rparr>)
      (pin_reads (stuck_high\<lparr>pin_reads := 1\<rparr>) + k)"
    by (simp add: stuck_high_def)
  have below: "\<forall>k<1. (cyccnt (stuck_high\<lparr>pin_reads := 1\<rparr>)
        (Suc (cyc_reads (stuck_high\<lparr>pin_reads := 1\<rparr>)) + k)
      - cyccnt (stuck_high\<lparr>pin_reads := 1\<rparr>) (cyc_reads (stuck_high\<lparr>pin_reads := 1\<rparr>)))
      div 64 \<le> 200"
    by (simp add: stuck_high_def)
  have above: "200 < (cyccnt (stuck_high\<lparr>pin_reads := 1\<rparr>)
        (Suc (cyc_reads (stuck_high\<lparr>pin_reads := 1\<rparr>)) + 1)
      - cyccnt (stuck_high\<lparr>pin_reads := 1\<rparr>) (cyc_reads (stuck_high\<lparr>pin_reads := 1\<rparr>)))
      div 64"
    by (simp add: stuck_high_def)
  have counting: "cyccnt (stuck_high\<lparr>pin_reads := 1\<rparr>)
        (Suc (cyc_reads (stuck_high\<lparr>pin_reads := 1\<rparr>)) + 1)
      - cyccnt (stuck_high\<lparr>pin_reads := 1\<rparr>) (cyc_reads (stuck_high\<lparr>pin_reads := 1\<rparr>))
      \<le> cyccnt (stuck_high\<lparr>pin_reads := 1\<rparr>)
        (Suc (Suc (cyc_reads (stuck_high\<lparr>pin_reads := 1\<rparr>))) + 1)
      - cyccnt (stuck_high\<lparr>pin_reads := 1\<rparr>) (cyc_reads (stuck_high\<lparr>pin_reads := 1\<rparr>))"
    by (simp add: stuck_high_def)
  from cutoff_reads_as_one [OF _ stuck_high_wait _ high below above counting,
      of 0 "[0, 0, 0, 0, 0]" 0 dstate0]
  show ?thesis by (auto simp add: stuck_high_def)
qed

section \<open>The sign of the temperature\<close>

lemma debug_run:
  assumes "map_option fst (receive (snd (furi_hal_gpio_read h))) = Some (Inr fr)"
  shows "\<exists>d h'. debug_receive app h = Some (Inr (40, fr), d, h')"
proof -
  from assms have "map_option fst (map_option (\<lambda>(r, d, h'). (map_sum id snd r, h'))
      (debug_receive app h)) = Some (Inr fr)"
    by (simp only: debug_receive_flow)
  then obtain r d h' where r: "debug_receive app h = Some (r, d, h')"
    and "map_sum id snd r = Inr fr"
    by auto
  then obtain n where "r = Inr (n, fr)"
    by (cases r) auto
  with r debug_receive_count [of app h n fr d h'] show ?thesis
    by auto
qed

lemma validate_temperature:
  "data ! 0 + data ! 1 + data ! 2 + data ! 3 = data ! 4 \<Longrightarrow>
   temperature (snd (validate data app))
     = (if bit (data ! 2) 7 then - uint ((data ! 2) AND 0x7F) else uint (data ! 2))"
  by (simp add: validate_checksum_ok Let_def)

text \<open>
  C1. Sign-magnitude decoding of the temperature byte in both reads. A sensor sends the
  frame 28 00 85 00 AD (humidity 40, temperature byte 0x85, checksum right). The plain
  read decodes the temperature -5 and returns true. The debug read never tests the sign
  bit: it stores the byte as it is, 133, rejects the frame as out of range and returns
  false.
\<close>

theorem debug_read_ignores_sign_bit:
  "map_option (\<lambda>(b, a, h). (b, temperature a, humidity a))
       (dht11_sensor_read app0 (sensor_plain [0x28, 0, 0x85, 0, 0xAD]))
     = Some (True, - 5, 40)
   \<and> map_option (\<lambda>(b, a, h). (b, temperature a, humidity a))
       (dht11_sensor_debug_read app0 (sensor_debug [0x28, 0, 0x85, 0, 0xAD]))
     = Some (False, 133, 40)"
proof
  have "map_option fst (receive (sensor_plain [0x28, 0, 0x85, 0, 0xAD]))
      = Some (Inr [0x28, 0, 0x85, 0, 0xAD])"
    by code_simp
  then obtain h' where "receive (sensor_plain [0x28, 0, 0x85, 0, 0xAD])
      = Some (Inr [0x28, 0, 0x85, 0, 0xAD], h')"
    by auto
  from read_exit_received [OF this, of app0]
  show "map_option (\<lambda>(b, a, h). (b, temperature a, humidity a))
       (dht11_sensor_read app0 (sensor_plain [0x28, 0, 0x85, 0, 0xAD]))
     = Some (True, - 5, 40)"
    by (simp add: dht11_sensor_read_def validate_checksum_ok out_of_range_def returned_def)
next
  have "map_option fst (receive (snd (furi_hal_gpio_read (sensor_debug [0x28, 0, 0x85, 0, 0xAD]))))
      = Some (Inr [0x28, 0, 0x85, 0, 0xAD])"
    by code_simp
  from debug_run [OF this, of app0]
  obtain d h' where "debug_receive app0 (sensor_debug [0x28, 0, 0x85, 0, 0xAD])
      = Some (Inr (40, [0x28, 0, 0x85, 0, 0xAD]), d, h')"
    by blast
  from debug_read_exit_received [OF this]
  show "map_option (\<lambda>(b, a, h). (b, temperature a, humidity a))
       (dht11_sensor_debug_read app0 (sensor_debug [0x28, 0, 0x85, 0, 0xAD]))
     = Some (False, 133, 40)"
    by (simp add: dht11_sensor_debug_read_def debug_validate_checksum_ok out_of_range_def
          returned_def)
qed

section \<open>The checksum\<close>

text \<open>
  C2. Checksum law. A frame \<open>(h, hf, t, tf, c)\<close> whose last byte is the sum of the first
  four modulo 256 is not rejected for its checksum by the validation of either read. A
  frame whose last byte is anything else is rejected with \<open>ChecksumMismatch\<close>: a read
  that has received it returns false with the hardware in the state in which the
  reception ended, so nothing is read again, and the plain read leaves the application
  structure as it was.
\<close>

theorem checksum_law:
  "(unat c = (unat h + unat hf + unat t + unat tf) mod 256 \<longrightarrow>
      fst (validate [h, hf, t, tf, c] app) \<noteq> Inl ChecksumMismatch
      \<and> fst (debug_validate n [h, hf, t, tf, c] d) \<noteq> Inl ChecksumMismatch)
   \<and> (unat c \<noteq> (unat h + unat hf + unat t + unat tf) mod 256 \<longrightarrow>
      validate [h, hf, t, tf, c] app = (Inl ChecksumMismatch, app)
      \<and> fst (debug_validate n [h, hf, t, tf, c] d) = Inl ChecksumMismatch
      \<and> (receive h0 = Some (Inr [h, hf, t, tf, c], h2) \<longrightarrow>
            dht11_sensor_read_exit app h0 = Some (Inl ChecksumMismatch, app, h2)
            \<and> dht11_sensor_read app h0 = Some (False, app, h2))
      \<and> (debug_receive app g0 = Some (Inr (n, [h, hf, t, tf, c]), d, g2) \<longrightarrow>
            map_option (\<lambda>(r, d', g'). (r, g')) (dht11_sensor_debug_read_exit app g0)
              = Some (Inl ChecksumMismatch, g2)
            \<and> map_option (\<lambda>(b, a, g'). (b, g')) (dht11_sensor_debug_read app g0)
              = Some (False, g2)))"
proof (cases "h + hf + t + tf = c")
  case True
  then have "unat c = (unat h + unat hf + unat t + unat tf) mod 256"
    using u8_sum_unat [of h hf t tf c] by blast
  moreover have "fst (validate [h, hf, t, tf, c] app) \<noteq> Inl ChecksumMismatch"
    using True by (simp add: validate_checksum_ok Let_def)
  moreover have "fst (debug_validate n [h, hf, t, tf, c] d) \<noteq> Inl ChecksumMismatch"
    using True by (simp add: debug_validate_checksum_ok)
  ultimately show ?thesis by blast
next
  case False
  then have ne: "unat c \<noteq> (unat h + unat hf + unat t + unat tf) mod 256"
    using u8_sum_unat [of h hf t tf c] by blast
  have v: "validate [h, hf, t, tf, c] app = (Inl ChecksumMismatch, app)"
    using False by (simp add: validate_checksum_fail)
  have w: "fst (debug_validate n [h, hf, t, tf, c] d) = Inl ChecksumMismatch"
    using False by (simp add: debug_validate_checksum_fail)
  have p: "receive h0 = Some (Inr [h, hf, t, tf, c], h2) \<longrightarrow>
      dht11_sensor_read_exit app h0 = Some (Inl ChecksumMismatch, app, h2)
      \<and> dht11_sensor_read app h0 = Some (False, app, h2)"
    using v by (auto simp add: read_exit_received dht11_sensor_read_def returned_def)
  have q: "debug_receive app g0 = Some (Inr (n, [h, hf, t, tf, c]), d, g2) \<longrightarrow>
      map_option (\<lambda>(r, d', g'). (r, g')) (dht11_sensor_debug_read_exit app g0)
        = Some (Inl ChecksumMismatch, g2)
      \<and> map_option (\<lambda>(b, a, g'). (b, g')) (dht11_sensor_debug_read app g0) = Some (False, g2)"
    using w
    by (auto simp add: debug_read_exit_received dht11_sensor_debug_read_def returned_def)
  from ne v w p q show ?thesis by blast
qed

theorem checksum_law_witness:
  "fst (validate [0x32, 0, 0x18, 0, 0x4A] app0) \<noteq> Inl ChecksumMismatch
   \<and> fst (debug_validate 40 [0x32, 0, 0x18, 0, 0x4A] dstate0) \<noteq> Inl ChecksumMismatch
   \<and> validate [0x32, 0, 0x18, 0, 0x4B] app0 = (Inl ChecksumMismatch, app0)
   \<and> (\<exists>h2. receive (sensor_plain [0x32, 0, 0x18, 0, 0x4B])
              = Some (Inr [0x32, 0, 0x18, 0, 0x4B], h2)
          \<and> dht11_sensor_read app0 (sensor_plain [0x32, 0, 0x18, 0, 0x4B])
              = Some (False, app0, h2))
   \<and> (\<exists>d g2. debug_receive app0 (sensor_debug [0x32, 0, 0x18, 0, 0x4B])
              = Some (Inr (40, [0x32, 0, 0x18, 0, 0x4B]), d, g2)
          \<and> map_option (\<lambda>(b, a, g'). (b, g'))
                (dht11_sensor_debug_read app0 (sensor_debug [0x32, 0, 0x18, 0, 0x4B]))
              = Some (False, g2))"
proof -
  have "map_option fst (receive (sensor_plain [0x32, 0, 0x18, 0, 0x4B]))
      = Some (Inr [0x32, 0, 0x18, 0, 0x4B])"
    by code_simp
  then obtain h2 where p: "receive (sensor_plain [0x32, 0, 0x18, 0, 0x4B])
      = Some (Inr [0x32, 0, 0x18, 0, 0x4B], h2)"
    by auto
  have "map_option fst (receive (snd (furi_hal_gpio_read (sensor_debug [0x32, 0, 0x18, 0, 0x4B]))))
      = Some (Inr [0x32, 0, 0x18, 0, 0x4B])"
    by code_simp
  from debug_run [OF this, of app0]
  obtain d g2 where q: "debug_receive app0 (sensor_debug [0x32, 0, 0x18, 0, 0x4B])
      = Some (Inr (40, [0x32, 0, 0x18, 0, 0x4B]), d, g2)"
    by blast
  from p q
    checksum_law [of "0x4A" "0x32" 0 "0x18" 0 app0 40 dstate0]
    checksum_law [of "0x4B" "0x32" 0 "0x18" 0 app0 40 d
      "sensor_plain [0x32, 0, 0x18, 0, 0x4B]" h2 "sensor_debug [0x32, 0, 0x18, 0, 0x4B]" g2]
  show ?thesis by simp
qed

end
